theory Spec2Isabelle
  imports Complex_Main "HOL-Library.Word"
begin

section \<open>Values of the program\<close>

text \<open>
  \<^verbatim>\<open>handler.py\<close> works on what \<^verbatim>\<open>json.loads\<close> returns: \<^verbatim>\<open>None\<close>, booleans, integers,
  floats, strings, lists and dictionaries with string keys. A dictionary is the list of its
  items in insertion order. A float is a finite value or one of the three special values
  that \<^verbatim>\<open>json.loads\<close> accepts.
\<close>

type_synonym byte = "8 word"

datatype pyfloat = Finite rat | PosInf | NegInf | NaN

datatype json =
    JNull
  | JBool bool
  | JInt int
  | JFloat pyfloat
  | JStr string
  | JArr "json list"
  | JObj "(string \<times> json) list"

text \<open>The exceptions the program can meet, by class.\<close>

datatype error =
    TypeError
  | KeyError
  | IndexError
  | AttributeError
  | ValueError
  | BinasciiError
  | JSONDecodeError
  | OSError
  | URLError
  | WebSocketException
  | RuntimeError string

subsection \<open>The operations of Python that the handler applies to these values\<close>

text \<open>\<^verbatim>\<open>a == b\<close>: numbers compare by value across \<^verbatim>\<open>bool\<close>, \<^verbatim>\<open>int\<close> and \<^verbatim>\<open>float\<close>, a NaN
  equals nothing, lists compare element by element, dictionaries key by key.\<close>

fun num_of :: "json \<Rightarrow> pyfloat option" where
  "num_of (JBool b) = Some (Finite (if b then 1 else 0))"
| "num_of (JInt i) = Some (Finite (of_int i))"
| "num_of (JFloat f) = Some f"
| "num_of _ = None"

fun py_eq :: "json \<Rightarrow> json \<Rightarrow> bool"
  and py_eq_list :: "json list \<Rightarrow> json list \<Rightarrow> bool"
  and py_eq_items :: "(string \<times> json) list \<Rightarrow> (string \<times> json) list \<Rightarrow> bool" where
  "py_eq JNull b = (b = JNull)"
| "py_eq (JBool x) b = (num_of b = Some (Finite (if x then 1 else 0)))"
| "py_eq (JInt i) b = (num_of b = Some (Finite (of_int i)))"
| "py_eq (JFloat f) b = (f \<noteq> NaN \<and> num_of b = Some f)"
| "py_eq (JStr s) b = (b = JStr s)"
| "py_eq (JArr xs) b = (case b of JArr ys \<Rightarrow> py_eq_list xs ys | _ \<Rightarrow> False)"
| "py_eq (JObj kvs) b =
     (case b of JObj kws \<Rightarrow> length kvs = length kws \<and> py_eq_items kvs kws | _ \<Rightarrow> False)"
| "py_eq_list [] ys = (ys = [])"
| "py_eq_list (x # xs) ys =
     (case ys of [] \<Rightarrow> False | y # ys' \<Rightarrow> py_eq x y \<and> py_eq_list xs ys')"
| "py_eq_items [] kws = True"
| "py_eq_items ((k, v) # kvs) kws =
     (case map_of kws k of None \<Rightarrow> False | Some w \<Rightarrow> py_eq v w \<and> py_eq_items kvs kws)"

text \<open>\<^verbatim>\<open>xs[i]\<close> on a sequence: a negative index counts from the end, an index out of range
  raises.\<close>

definition py_index :: "'a list \<Rightarrow> int \<Rightarrow> error + 'a" where
  "py_index xs i =
     (if 0 \<le> i \<and> i < int (length xs) then Inr (xs ! nat i)
      else if i < 0 \<and> - int (length xs) \<le> i then Inr (xs ! nat (int (length xs) + i))
      else Inl IndexError)"

text \<open>\<^verbatim>\<open>c[k]\<close>. The keys of a dictionary are strings, so another hashable key is missing and
  an unhashable one is a type error; a list or a string takes an integer (a \<^verbatim>\<open>bool\<close> is
  one); nothing else can be subscripted.\<close>

fun py_getitem :: "json \<Rightarrow> json \<Rightarrow> error + json" where
  "py_getitem (JObj kvs) (JStr k) =
     (case map_of kvs k of None \<Rightarrow> Inl KeyError | Some v \<Rightarrow> Inr v)"
| "py_getitem (JObj kvs) (JArr _) = Inl TypeError"
| "py_getitem (JObj kvs) (JObj _) = Inl TypeError"
| "py_getitem (JObj kvs) _ = Inl KeyError"
| "py_getitem (JArr xs) (JInt i) = py_index xs i"
| "py_getitem (JArr xs) (JBool b) = py_index xs (if b then 1 else 0)"
| "py_getitem (JStr s) (JInt i) = map_sum id (\<lambda>c. JStr [c]) (py_index s i)"
| "py_getitem (JStr s) (JBool b) =
     map_sum id (\<lambda>c. JStr [c]) (py_index s (if b then 1 else 0))"
| "py_getitem _ _ = Inl TypeError"

text \<open>\<^verbatim>\<open>d.get(k, default)\<close> and \<^verbatim>\<open>d.values()\<close> exist on dictionaries only.\<close>

fun py_get :: "json \<Rightarrow> string \<Rightarrow> json \<Rightarrow> error + json" where
  "py_get (JObj kvs) k dflt = Inr (case map_of kvs k of None \<Rightarrow> dflt | Some v \<Rightarrow> v)"
| "py_get _ k dflt = Inl AttributeError"

fun py_values :: "json \<Rightarrow> error + json list" where
  "py_values (JObj kvs) = Inr (map snd kvs)"
| "py_values _ = Inl AttributeError"

text \<open>\<^verbatim>\<open>len(x)\<close> and \<^verbatim>\<open>for v in x\<close>: a dictionary iterates over its keys, a string over its
  characters.\<close>

fun py_len :: "json \<Rightarrow> error + nat" where
  "py_len (JStr s) = Inr (length s)"
| "py_len (JArr xs) = Inr (length xs)"
| "py_len (JObj kvs) = Inr (length kvs)"
| "py_len _ = Inl TypeError"

fun py_iter :: "json \<Rightarrow> error + json list" where
  "py_iter (JStr s) = Inr (map (\<lambda>c. JStr [c]) s)"
| "py_iter (JArr xs) = Inr xs"
| "py_iter (JObj kvs) = Inr (map (\<lambda>kv. JStr (fst kv)) kvs)"
| "py_iter _ = Inl TypeError"

text \<open>\<^verbatim>\<open>k in x\<close> for a string \<open>k\<close>: a key of a dictionary, an element of a list, a substring
  of a string.\<close>

fun starts_with :: "'a list \<Rightarrow> 'a list \<Rightarrow> bool" where
  "starts_with [] s = True"
| "starts_with (p # ps) [] = False"
| "starts_with (p # ps) (c # cs) = (p = c \<and> starts_with ps cs)"

fun has_substring :: "'a list \<Rightarrow> 'a list \<Rightarrow> bool" where
  "has_substring p [] = (p = [])"
| "has_substring p (c # cs) = (starts_with p (c # cs) \<or> has_substring p cs)"

fun py_contains :: "string \<Rightarrow> json \<Rightarrow> error + bool" where
  "py_contains k (JObj kvs) = Inr (map_of kvs k \<noteq> None)"
| "py_contains k (JArr xs) = Inr (list_ex (\<lambda>x. x = JStr k) xs)"
| "py_contains k (JStr s) = Inr (has_substring k s)"
| "py_contains k _ = Inl TypeError"

section \<open>Library functions of the handler\<close>

subsection \<open>\<^verbatim>\<open>base64.b64encode\<close> and \<^verbatim>\<open>base64.b64decode\<close>\<close>

text \<open>
  The standard alphabet of RFC 4648. The encoder takes three bytes to four characters and
  pads the last group with \<^verbatim>\<open>=\<close>.
\<close>

definition b64_alphabet :: string where
  "b64_alphabet = ''ABCDEFGHIJKLMNOPQRSTUVWXYZabcdefghijklmnopqrstuvwxyz0123456789+/''"

definition b64_char :: "nat \<Rightarrow> char" where
  "b64_char n = b64_alphabet ! n"

fun index_of :: "'a \<Rightarrow> 'a list \<Rightarrow> nat option" where
  "index_of c [] = None"
| "index_of c (x # xs) = (if c = x then Some 0 else map_option Suc (index_of c xs))"

definition b64_index :: "char \<Rightarrow> nat option" where
  "b64_index c = index_of c b64_alphabet"

fun b64encode :: "byte list \<Rightarrow> string" where
  "b64encode [] = []"
| "b64encode [a] =
     (let x = unat a in
      [b64_char (x div 4), b64_char (x mod 4 * 16), CHR ''='', CHR ''=''])"
| "b64encode [a, b] =
     (let x = unat a; y = unat b in
      [b64_char (x div 4), b64_char (x mod 4 * 16 + y div 16),
       b64_char (y mod 16 * 4), CHR ''=''])"
| "b64encode (a # b # c # rest) =
     (let x = unat a; y = unat b; z = unat c in
      [b64_char (x div 4), b64_char (x mod 4 * 16 + y div 16),
       b64_char (y mod 16 * 4 + z div 64), b64_char (z mod 64)]) @ b64encode rest"

text \<open>
  The decoder in its default mode (\<^verbatim>\<open>validate=False\<close>), after CPython's
  \<^verbatim>\<open>binascii.a2b_base64\<close>: a character outside the alphabet is skipped; \<open>quad_pos\<close> is the
  position in the current group of four, \<open>leftchar\<close> the bits not yet written; a pad
  character that completes the group ends the decoding, any other pad character is skipped;
  an incomplete group at the end of the input raises \<^verbatim>\<open>binascii.Error\<close>.
\<close>

fun a2b_base64 :: "string \<Rightarrow> nat \<Rightarrow> nat \<Rightarrow> nat \<Rightarrow> byte list \<Rightarrow> error + byte list" where
  "a2b_base64 [] quad_pos leftchar pads out =
     (if quad_pos \<noteq> 0 then Inl BinasciiError else Inr out)"
| "a2b_base64 (c # cs) quad_pos leftchar pads out =
     (if c = CHR ''='' then
        (if quad_pos \<ge> 2 \<and> quad_pos + (pads + 1) \<ge> 4 then Inr out
         else a2b_base64 cs quad_pos leftchar (if quad_pos \<ge> 2 then pads + 1 else pads) out)
      else
        (case b64_index c of
           None \<Rightarrow> a2b_base64 cs quad_pos leftchar pads out
         | Some v \<Rightarrow>
             if quad_pos = 0 then a2b_base64 cs 1 v 0 out
             else if quad_pos = 1 then
               a2b_base64 cs 2 (v mod 16) 0 (out @ [of_nat (leftchar * 4 + v div 16)])
             else if quad_pos = 2 then
               a2b_base64 cs 3 (v mod 4) 0 (out @ [of_nat (leftchar * 16 + v div 4)])
             else a2b_base64 cs 0 0 0 (out @ [of_nat (leftchar * 64 + v)])))"

text \<open>\<^verbatim>\<open>b64decode\<close> takes a string of ASCII characters (\<^verbatim>\<open>ValueError\<close> otherwise); a value
  that is no string is a type error.\<close>

fun b64decode :: "json \<Rightarrow> error + byte list" where
  "b64decode (JStr s) =
     (if list_ex (\<lambda>c. 128 \<le> (of_char c :: nat)) s then Inl ValueError
      else a2b_base64 s 0 0 0 [])"
| "b64decode _ = Inl TypeError"

subsection \<open>\<^verbatim>\<open>os.path.join\<close> and the resolution of a path\<close>

definition INPUT_DIR :: string where
  "INPUT_DIR = ''/input''"

text \<open>\<^verbatim>\<open>posixpath.join(a, b)\<close>: an absolute \<open>b\<close> replaces \<open>a\<close>; otherwise \<open>b\<close> is appended after
  one separator. A second argument that is no string is a type error.\<close>

definition os_path_join :: "string \<Rightarrow> string \<Rightarrow> string" where
  "os_path_join a b =
     (if starts_with ''/'' b then b
      else if a = [] \<or> starts_with ''/'' (rev a) then a @ b
      else a @ ''/'' @ b)"

fun os_path_join_json :: "string \<Rightarrow> json \<Rightarrow> error + string" where
  "os_path_join_json a (JStr b) = Inr (os_path_join a b)"
| "os_path_join_json a _ = Inl TypeError"

text \<open>
  How the file system reads an absolute path with no symbolic link on it: the components
  between separators from the root, where an empty component and \<^verbatim>\<open>.\<close> stay in place and
  \<^verbatim>\<open>..\<close> goes up (the root is its own parent). The result is the list of directory names
  from the root down to the file.
\<close>

definition enter :: "string list \<Rightarrow> string \<Rightarrow> string list" where
  "enter dirs part =
     (if part = [] \<or> part = ''.'' then dirs
      else if part = ''..'' then butlast dirs
      else dirs @ [part])"

fun walk :: "string list \<Rightarrow> string \<Rightarrow> string \<Rightarrow> string list" where
  "walk dirs part [] = enter dirs part"
| "walk dirs part (c # cs) =
     (if c = CHR ''/'' then walk (enter dirs part) [] cs else walk dirs (part @ [c]) cs)"

definition resolve :: "string \<Rightarrow> string list" where
  "resolve path = walk [] [] path"

definition inside_input_dir :: "string \<Rightarrow> bool" where
  "inside_input_dir path = starts_with [''input''] (resolve path)"

section \<open>The world around the handler\<close>

text \<open>
  Everything the handler reads from outside is a field of the environment:
  \<^item> \<open>loads\<close> is \<^verbatim>\<open>json.loads\<close> (the parsed value, or the exception);
  \<^item> \<open>client_id\<close> is the module's \<^verbatim>\<open>CLIENT_ID\<close>;
  \<^item> \<open>open_wb path\<close> is the exception of \<^verbatim>\<open>open(path, "wb")\<close>, if any (once the file is
    open, writing and closing it succeed);
  \<^item> \<open>alive k\<close> tells whether the \<open>k\<close>-th request to the base address returns;
  \<^item> \<open>ws_connect\<close> is the exception of \<^verbatim>\<open>ws.connect\<close>, if any;
  \<^item> \<open>post_prompt payload\<close> is the body of the answer to the POST on \<^verbatim>\<open>/prompt\<close>;
  \<^item> \<open>ws_recv k\<close> is what the \<open>k\<close>-th \<^verbatim>\<open>ws.recv()\<close> does;
  \<^item> \<open>history_body id\<close> is the body of the answer to \<^verbatim>\<open>/history/<id>\<close>;
  \<^item> \<open>view k filename subfolder type\<close> is the body of the answer to the \<open>k\<close>-th request on
    \<^verbatim>\<open>/view\<close>.
  A request is identified by the values its URL is built from, and \<^verbatim>\<open>SERVER_ADDRESS\<close> is
  part of the environment that answers.
\<close>

datatype recv =
    RecvStr string
  | RecvBytes "byte list"
  | RecvRaises error
  | RecvBlocks

record env =
  loads :: "string \<Rightarrow> error + json"
  client_id :: string
  open_wb :: "string \<Rightarrow> error option"
  alive :: "nat \<Rightarrow> bool"
  ws_connect :: "error option"
  post_prompt :: "json \<Rightarrow> error + string"
  ws_recv :: "nat \<Rightarrow> recv"
  history_body :: "json \<Rightarrow> error + string"
  view :: "nat \<Rightarrow> json \<Rightarrow> json \<Rightarrow> json \<Rightarrow> error + byte list"

text \<open>
  What the handler does to the outside, in the order it does it, and the files it leaves.
  A file is identified by its place in the file system, the list \<open>resolve path\<close> of the
  path it was opened at: two spellings of one place, such as \<^verbatim>\<open>/input/a.png\<close> and
  \<^verbatim>\<open>/input/./a.png\<close>, are the same file.
\<close>

datatype event =
    FileWrite string "byte list"
  | UrlOpenBase
  | Sleep nat
  | WsConnect string
  | PostPrompt json
  | WsRecv
  | WsClose
  | GetHistory json
  | GetView json json json

record world =
  files :: "string list \<rightharpoonup> byte list"
  trace :: "event list"

definition emit :: "event list \<Rightarrow> world \<Rightarrow> world" where
  "emit es w = w\<lparr>trace := trace w @ es\<rparr>"

section \<open>The functions of \<^verbatim>\<open>handler.py\<close>\<close>

subsection \<open>\<^verbatim>\<open>queue_prompt\<close>, \<^verbatim>\<open>get_history\<close>, \<^verbatim>\<open>get_image\<close>\<close>

definition queue_prompt :: "env \<Rightarrow> json \<Rightarrow> error + json" where
  "queue_prompt E prompt =
     (let payload = JObj [(''prompt'', prompt), (''client_id'', JStr (client_id E))] in
      case post_prompt E payload of
        Inl e \<Rightarrow> Inl e
      | Inr body \<Rightarrow>
          (case loads E body of
             Inl e \<Rightarrow> Inl e
           | Inr res \<Rightarrow> py_getitem res (JStr ''prompt_id'')))"

definition get_history :: "env \<Rightarrow> json \<Rightarrow> error + json" where
  "get_history E prompt_id =
     (case history_body E prompt_id of
        Inl e \<Rightarrow> Inl e
      | Inr body \<Rightarrow>
          (case loads E body of
             Inl e \<Rightarrow> Inl e
           | Inr h \<Rightarrow> py_getitem h prompt_id))"

definition get_image :: "env \<Rightarrow> nat \<Rightarrow> json \<Rightarrow> json \<Rightarrow> json \<Rightarrow> error + byte list" where
  "get_image E k filename subfolder folder_type = view E k filename subfolder folder_type"

subsection \<open>\<^verbatim>\<open>wait_for_execution\<close>\<close>

text \<open>
  The loop \<^verbatim>\<open>while True: msg = ws.recv() ...\<close> has no bound: it is a partial function, and
  \<open>None\<close> is a run that never returns. A returned pair is the exception raised, if any, and
  the number of messages received.
\<close>

partial_function (option) wait_for_execution ::
  "(string \<Rightarrow> error + json) \<Rightarrow> (nat \<Rightarrow> recv) \<Rightarrow> json \<Rightarrow> nat \<Rightarrow> (error option \<times> nat) option"
where
  "wait_for_execution ld ws prompt_id i =
     (case ws i of
        RecvBlocks \<Rightarrow> None
      | RecvRaises e \<Rightarrow> Some (Some e, Suc i)
      | RecvBytes b \<Rightarrow> wait_for_execution ld ws prompt_id (Suc i)
      | RecvStr msg \<Rightarrow>
          (case ld msg of
             Inl e \<Rightarrow> Some (Some e, Suc i)
           | Inr data \<Rightarrow>
               (case py_getitem data (JStr ''type'') of
                  Inl e \<Rightarrow> Some (Some e, Suc i)
                | Inr t \<Rightarrow>
                    if py_eq t (JStr ''executing'') then
                      (case py_getitem data (JStr ''data'') of
                         Inl e \<Rightarrow> Some (Some e, Suc i)
                       | Inr d \<Rightarrow>
                           (case py_getitem d (JStr ''node'') of
                              Inl e \<Rightarrow> Some (Some e, Suc i)
                            | Inr node \<Rightarrow>
                                if node = JNull then
                                  (case py_getitem d (JStr ''prompt_id'') of
                                     Inl e \<Rightarrow> Some (Some e, Suc i)
                                   | Inr p \<Rightarrow>
                                       if py_eq p prompt_id then Some (None, Suc i)
                                       else wait_for_execution ld ws prompt_id (Suc i))
                                else wait_for_execution ld ws prompt_id (Suc i)))
                    else wait_for_execution ld ws prompt_id (Suc i))))"

subsection \<open>\<^verbatim>\<open>handler\<close>: saving the input images (lines 86 to 92)\<close>

fun save_input_images :: "env \<Rightarrow> json list \<Rightarrow> world \<Rightarrow> error option \<times> world" where
  "save_input_images E [] w = (None, w)"
| "save_input_images E (img # imgs) w =
     (case py_getitem img (JStr ''name'') of
        Inl e \<Rightarrow> (Some e, w)
      | Inr name \<Rightarrow>
          (case py_getitem img (JStr ''image'') of
             Inl e \<Rightarrow> (Some e, w)
           | Inr encoded \<Rightarrow>
               (case b64decode encoded of
                  Inl e \<Rightarrow> (Some e, w)
                | Inr data \<Rightarrow>
                    (case os_path_join_json INPUT_DIR name of
                       Inl e \<Rightarrow> (Some e, w)
                     | Inr path \<Rightarrow>
                         (case open_wb E path of
                            Some e \<Rightarrow> (Some e, w)
                          | None \<Rightarrow>
                              save_input_images E imgs
                                (emit [FileWrite path data]
                                   (w\<lparr>files := (files w)(resolve path \<mapsto> data)\<rparr>)))))))"

subsection \<open>\<^verbatim>\<open>handler\<close>: waiting for the server (lines 95 to 102)\<close>

text \<open>\<open>ensure_up up i n\<close> is the \<^verbatim>\<open>for\<close> loop with \<open>n\<close> rounds left, at request number \<open>i\<close>;
  the \<^verbatim>\<open>else\<close> branch of the loop raises once no round is left.\<close>

fun ensure_up :: "(nat \<Rightarrow> bool) \<Rightarrow> nat \<Rightarrow> nat \<Rightarrow> event list \<times> error option" where
  "ensure_up up i 0 = ([], Some (RuntimeError ''ComfyUI not responding''))"
| "ensure_up up i (Suc n) =
     (if up i then ([UrlOpenBase], None)
      else (case ensure_up up (Suc i) n of (tr, r) \<Rightarrow> (UrlOpenBase # Sleep 1 # tr, r)))"

definition ensure_comfy_up :: "(nat \<Rightarrow> bool) \<Rightarrow> event list \<times> error option" where
  "ensure_comfy_up up = ensure_up up 0 120"

subsection \<open>\<^verbatim>\<open>handler\<close>: collecting the images (lines 119 to 133)\<close>

text \<open>The inner loop over the images of one node: \<open>k\<close> counts the requests on \<^verbatim>\<open>/view\<close> made
  so far, \<open>acc\<close> is \<^verbatim>\<open>output_images\<close>.\<close>

fun collect_node ::
  "env \<Rightarrow> json list \<Rightarrow> nat \<Rightarrow> json list \<Rightarrow> event list \<times> (error + nat \<times> json list)" where
  "collect_node E [] k acc = ([], Inr (k, acc))"
| "collect_node E (img # imgs) k acc =
     (case py_getitem img (JStr ''filename'') of
        Inl e \<Rightarrow> ([], Inl e)
      | Inr filename \<Rightarrow>
          (case py_getitem img (JStr ''subfolder'') of
             Inl e \<Rightarrow> ([], Inl e)
           | Inr subfolder \<Rightarrow>
               (case py_getitem img (JStr ''type'') of
                  Inl e \<Rightarrow> ([], Inl e)
                | Inr folder_type \<Rightarrow>
                    (case get_image E k filename subfolder folder_type of
                       Inl e \<Rightarrow> ([GetView filename subfolder folder_type], Inl e)
                     | Inr raw \<Rightarrow>
                         (case collect_node E imgs (Suc k)
                                 (acc @ [JObj [(''name'', filename),
                                               (''data'', JStr (b64encode raw))]]) of
                            (tr, r) \<Rightarrow> (GetView filename subfolder folder_type # tr, r))))))"

fun collect_images ::
  "env \<Rightarrow> json list \<Rightarrow> nat \<Rightarrow> json list \<Rightarrow> event list \<times> (error + json list)" where
  "collect_images E [] k acc = ([], Inr acc)"
| "collect_images E (node # nodes) k acc =
     (case py_contains ''images'' node of
        Inl e \<Rightarrow> ([], Inl e)
      | Inr present \<Rightarrow>
          if \<not> present then collect_images E nodes k acc
          else
            (case py_getitem node (JStr ''images'') of
               Inl e \<Rightarrow> ([], Inl e)
             | Inr images \<Rightarrow>
                 (case py_iter images of
                    Inl e \<Rightarrow> ([], Inl e)
                  | Inr imgs \<Rightarrow>
                      (case collect_node E imgs k acc of
                         (tr, Inl e) \<Rightarrow> (tr, Inl e)
                       | (tr, Inr (k', acc')) \<Rightarrow>
                           (case collect_images E nodes k' acc' of
                              (tr', r) \<Rightarrow> (tr @ tr', r))))))"

subsection \<open>\<^verbatim>\<open>handler\<close>\<close>

text \<open>
  Lines 76 to 116: from the job to the history record of the finished prompt. The world
  starts with the files that exist and an empty trace. \<open>None\<close> is a run that never
  returns.
\<close>

definition handler_to_history ::
  "env \<Rightarrow> json \<Rightarrow> (string list \<rightharpoonup> byte list) \<Rightarrow> ((error + json) \<times> world) option" where
  "handler_to_history E job fs =
     (let w = \<lparr>files = fs, trace = []\<rparr> in
      case py_getitem job (JStr ''input'') of
        Inl e \<Rightarrow> Some (Inl e, w)
      | Inr job_input \<Rightarrow>
      (case py_getitem job_input (JStr ''workflow'') of
        Inl e \<Rightarrow> Some (Inl e, w)
      | Inr workflow \<Rightarrow>
      (case py_get job_input ''images'' (JArr []) of
        Inl e \<Rightarrow> Some (Inl e, w)
      | Inr images \<Rightarrow>
      (case py_len workflow of
        Inl e \<Rightarrow> Some (Inl e, w)
      | Inr _ \<Rightarrow>
      (case py_len images of
        Inl e \<Rightarrow> Some (Inl e, w)
      | Inr _ \<Rightarrow>
      (case py_iter images of
        Inl e \<Rightarrow> Some (Inl e, w)
      | Inr imgs \<Rightarrow>
      (case save_input_images E imgs w of
        (Some e, w1) \<Rightarrow> Some (Inl e, w1)
      | (None, w1) \<Rightarrow>
      (case ensure_comfy_up (alive E) of
        (tr, Some e) \<Rightarrow> Some (Inl e, emit tr w1)
      | (tr, None) \<Rightarrow>
      (let w2 = emit (tr @ [WsConnect (client_id E)]) w1 in
       case ws_connect E of
        Some e \<Rightarrow> Some (Inl e, w2)
      | None \<Rightarrow>
      (let w3 = emit [PostPrompt (JObj [(''prompt'', workflow),
                                       (''client_id'', JStr (client_id E))])] w2 in
       case queue_prompt E workflow of
        Inl e \<Rightarrow> Some (Inl e, w3)
      | Inr prompt_id \<Rightarrow>
      (case wait_for_execution (loads E) (ws_recv E) prompt_id 0 of
        None \<Rightarrow> None
      | Some (Some e, n) \<Rightarrow> Some (Inl e, emit (replicate n WsRecv) w3)
      | Some (None, n) \<Rightarrow>
      (let w4 = emit (replicate n WsRecv @ [WsClose, GetHistory prompt_id]) w3 in
       case get_history E prompt_id of
        Inl e \<Rightarrow> Some (Inl e, w4)
      | Inr history \<Rightarrow> Some (Inr history, w4)))))))))))))"

text \<open>Lines 119 to 140: the images of the history record and the returned value.\<close>

definition handler_result :: "env \<Rightarrow> json \<Rightarrow> world \<Rightarrow> (error + json) \<times> world" where
  "handler_result E history w =
     (case py_getitem history (JStr ''outputs'') of
        Inl e \<Rightarrow> (Inl e, w)
      | Inr outputs \<Rightarrow>
          (case py_values outputs of
             Inl e \<Rightarrow> (Inl e, w)
           | Inr nodes \<Rightarrow>
               (case collect_images E nodes 0 [] of
                  (tr, Inl e) \<Rightarrow> (Inl e, emit tr w)
                | (tr, Inr output_images) \<Rightarrow>
                    (if output_images = [] then
                       (Inr (JObj [(''error'', JStr ''No images generated'')]), emit tr w)
                     else (Inr (JObj [(''images'', JArr output_images)]), emit tr w)))))"

definition handler ::
  "env \<Rightarrow> json \<Rightarrow> (string list \<rightharpoonup> byte list) \<Rightarrow> ((error + json) \<times> world) option" where
  "handler E job fs =
     (case handler_to_history E job fs of
        None \<Rightarrow> None
      | Some (Inl e, w) \<Rightarrow> Some (Inl e, w)
      | Some (Inr history, w) \<Rightarrow> Some (handler_result E history w))"

section \<open>Notions for the properties\<close>

text \<open>
  The messages of the push channel, as the claims sort them. A completion signal is a text
  message that parses to a value with type \<^verbatim>\<open>"executing"\<close>, a null \<^verbatim>\<open>data.node\<close> and the
  tracked \<^verbatim>\<open>data.prompt_id\<close>. An ignorable message is a binary one, a parsed one of another
  type, an \<^verbatim>\<open>"executing"\<close> one with a node, or an \<^verbatim>\<open>"executing"\<close> one without a node
  and with another \<^verbatim>\<open>prompt_id\<close>.
\<close>

fun is_completion_signal :: "(string \<Rightarrow> error + json) \<Rightarrow> json \<Rightarrow> recv \<Rightarrow> bool" where
  "is_completion_signal ld prompt_id (RecvStr msg) =
     (case ld msg of
        Inl _ \<Rightarrow> False
      | Inr data \<Rightarrow>
          (case py_getitem data (JStr ''type'') of
             Inl _ \<Rightarrow> False
           | Inr t \<Rightarrow>
               py_eq t (JStr ''executing'') \<and>
               (case py_getitem data (JStr ''data'') of
                  Inl _ \<Rightarrow> False
                | Inr d \<Rightarrow>
                    py_getitem d (JStr ''node'') = Inr JNull \<and>
                    (case py_getitem d (JStr ''prompt_id'') of
                       Inl _ \<Rightarrow> False
                     | Inr p \<Rightarrow> py_eq p prompt_id))))"
| "is_completion_signal ld prompt_id _ = False"

fun is_ignorable :: "(string \<Rightarrow> error + json) \<Rightarrow> json \<Rightarrow> recv \<Rightarrow> bool" where
  "is_ignorable ld prompt_id (RecvBytes b) = True"
| "is_ignorable ld prompt_id (RecvStr msg) =
     (case ld msg of
        Inl _ \<Rightarrow> False
      | Inr data \<Rightarrow>
          (case py_getitem data (JStr ''type'') of
             Inl _ \<Rightarrow> False
           | Inr t \<Rightarrow>
               \<not> py_eq t (JStr ''executing'') \<or>
               (case py_getitem data (JStr ''data'') of
                  Inl _ \<Rightarrow> False
                | Inr d \<Rightarrow>
                    (case py_getitem d (JStr ''node'') of
                       Inl _ \<Rightarrow> False
                     | Inr node \<Rightarrow>
                         node \<noteq> JNull \<or>
                         (case py_getitem d (JStr ''prompt_id'') of
                            Inl _ \<Rightarrow> False
                          | Inr p \<Rightarrow> \<not> py_eq p prompt_id)))))"
| "is_ignorable ld prompt_id _ = False"



text \<open>
  The artifact references of a history record, as the interface gives its shape: the
  \<^verbatim>\<open>outputs\<close> of the record is a dictionary of nodes, a node is a dictionary, its
  \<^verbatim>\<open>images\<close>, when present, is a list, and a reference in it has a \<^verbatim>\<open>filename\<close>, a
  \<^verbatim>\<open>subfolder\<close> and a \<^verbatim>\<open>type\<close>. \<open>artifact_refs\<close> lists the references in the order of the
  record, and is \<open>None\<close> for a record of another shape.
\<close>

definition field :: "json \<Rightarrow> string \<Rightarrow> json" where
  "field v k = (case py_getitem v (JStr k) of Inl _ \<Rightarrow> JNull | Inr x \<Rightarrow> x)"

definition has_field :: "json \<Rightarrow> string \<Rightarrow> bool" where
  "has_field v k = (case py_getitem v (JStr k) of Inl _ \<Rightarrow> False | Inr _ \<Rightarrow> True)"

definition ref_ok :: "json \<Rightarrow> bool" where
  "ref_ok img = (has_field img ''filename'' \<and> has_field img ''subfolder'' \<and> has_field img ''type'')"

fun node_refs :: "json \<Rightarrow> json list option" where
  "node_refs (JObj kvs) =
     (case map_of kvs ''images'' of
        None \<Rightarrow> Some []
      | Some (JArr imgs) \<Rightarrow> (if list_all ref_ok imgs then Some imgs else None)
      | Some _ \<Rightarrow> None)"
| "node_refs _ = None"

fun gather_refs :: "json list \<Rightarrow> json list option" where
  "gather_refs [] = Some []"
| "gather_refs (node # nodes) =
     (case node_refs node of
        None \<Rightarrow> None
      | Some rs \<Rightarrow> (case gather_refs nodes of None \<Rightarrow> None | Some rest \<Rightarrow> Some (rs @ rest)))"

definition artifact_refs :: "json \<Rightarrow> json list option" where
  "artifact_refs history =
     (case py_getitem history (JStr ''outputs'') of
        Inr (JObj kvs) \<Rightarrow> gather_refs (map snd kvs)
      | _ \<Rightarrow> None)"

text \<open>The request on \<^verbatim>\<open>/view\<close> for a reference, its event, and the entry of the result for
  the bytes fetched.\<close>

definition fetch :: "env \<Rightarrow> nat \<Rightarrow> json \<Rightarrow> error + byte list" where
  "fetch E k img =
     get_image E k (field img ''filename'') (field img ''subfolder'') (field img ''type'')"

definition view_event :: "json \<Rightarrow> event" where
  "view_event img = GetView (field img ''filename'') (field img ''subfolder'') (field img ''type'')"

definition image_entry :: "json \<Rightarrow> byte list \<Rightarrow> json" where
  "image_entry img raw = JObj [(''name'', field img ''filename''), (''data'', JStr (b64encode raw))]"

text \<open>\<open>fetches E k refs raws\<close>: the requests for \<open>refs\<close>, made in order as the requests number
  \<open>k\<close>, \<open>k + 1\<close>, ... on \<^verbatim>\<open>/view\<close>, all succeed, with the bodies \<open>raws\<close>.\<close>

fun fetches :: "env \<Rightarrow> nat \<Rightarrow> json list \<Rightarrow> byte list list \<Rightarrow> bool" where
  "fetches E k [] raws = (raws = [])"
| "fetches E k (img # imgs) raws =
     (case raws of
        [] \<Rightarrow> False
      | raw # rest \<Rightarrow> fetch E k img = Inr raw \<and> fetches E (Suc k) imgs rest)"

text \<open>
  Two parts of \<^verbatim>\<open>handler\<close> on their own, to state what a run has done: \<open>job_parts\<close> is what
  lines 76 to 86 read from the job (the workflow and the list the loop over the images
  runs through), \<open>after_ready\<close> is lines 105 to 116, from the connection to the history
  record.
\<close>

definition job_parts :: "json \<Rightarrow> error + json \<times> json list" where
  "job_parts job =
     (case py_getitem job (JStr ''input'') of
        Inl e \<Rightarrow> Inl e
      | Inr job_input \<Rightarrow>
      (case py_getitem job_input (JStr ''workflow'') of
        Inl e \<Rightarrow> Inl e
      | Inr workflow \<Rightarrow>
      (case py_get job_input ''images'' (JArr []) of
        Inl e \<Rightarrow> Inl e
      | Inr images \<Rightarrow>
      (case py_len workflow of
        Inl e \<Rightarrow> Inl e
      | Inr _ \<Rightarrow>
      (case py_len images of
        Inl e \<Rightarrow> Inl e
      | Inr _ \<Rightarrow>
      (case py_iter images of
        Inl e \<Rightarrow> Inl e
      | Inr imgs \<Rightarrow> Inr (workflow, imgs)))))))"

definition submission :: "env \<Rightarrow> json \<Rightarrow> json" where
  "submission E workflow = JObj [(''prompt'', workflow), (''client_id'', JStr (client_id E))]"

definition after_ready :: "env \<Rightarrow> json \<Rightarrow> world \<Rightarrow> ((error + json) \<times> world) option" where
  "after_ready E workflow w1 =
     (let w2 = emit [WsConnect (client_id E)] w1 in
      case ws_connect E of
        Some e \<Rightarrow> Some (Inl e, w2)
      | None \<Rightarrow>
      (let w3 = emit [PostPrompt (submission E workflow)] w2 in
       case queue_prompt E workflow of
        Inl e \<Rightarrow> Some (Inl e, w3)
      | Inr prompt_id \<Rightarrow>
      (case wait_for_execution (loads E) (ws_recv E) prompt_id 0 of
        None \<Rightarrow> None
      | Some (Some e, n) \<Rightarrow> Some (Inl e, emit (replicate n WsRecv) w3)
      | Some (None, n) \<Rightarrow>
      (let w4 = emit (replicate n WsRecv @ [WsClose, GetHistory prompt_id]) w3 in
       case get_history E prompt_id of
        Inl e \<Rightarrow> Some (Inl e, w4)
      | Inr history \<Rightarrow> Some (Inr history, w4)))))"

text \<open>The kinds of events, to say which occur in a stretch of the trace.\<close>

fun is_write :: "event \<Rightarrow> bool" where
  "is_write (FileWrite path data) = True"
| "is_write _ = False"

fun is_probe :: "event \<Rightarrow> bool" where
  "is_probe UrlOpenBase = True"
| "is_probe (Sleep n) = True"
| "is_probe _ = False"

fun is_connect :: "event \<Rightarrow> bool" where
  "is_connect (WsConnect c) = True"
| "is_connect _ = False"

fun is_submit :: "event \<Rightarrow> bool" where
  "is_submit (PostPrompt p) = True"
| "is_submit _ = False"

fun is_history_request :: "event \<Rightarrow> bool" where
  "is_history_request (GetHistory p) = True"
| "is_history_request _ = False"

fun is_view :: "event \<Rightarrow> bool" where
  "is_view (GetView f s t) = True"
| "is_view _ = False"

fun is_late :: "event \<Rightarrow> bool" where
  "is_late WsRecv = True"
| "is_late WsClose = True"
| "is_late (GetHistory p) = True"
| "is_late (GetView f s t) = True"
| "is_late _ = False"

text \<open>\<open>writes_image img ev\<close>: the event is the writing of the decoded payload of the input
  image at the path joined from \<^verbatim>\<open>INPUT_DIR\<close> and its name. \<open>apply_write\<close> is the effect of
  such an event on the files.\<close>

definition writes_image :: "json \<Rightarrow> event \<Rightarrow> bool" where
  "writes_image img ev =
     (case py_getitem img (JStr ''name'') of
        Inr (JStr name) \<Rightarrow>
          (case py_getitem img (JStr ''image'') of
             Inr encoded \<Rightarrow>
               (case b64decode encoded of
                  Inr data \<Rightarrow> ev = FileWrite (os_path_join INPUT_DIR name) data
                | Inl _ \<Rightarrow> False)
           | Inl _ \<Rightarrow> False)
      | _ \<Rightarrow> False)"

fun apply_write ::
  "(string list \<rightharpoonup> byte list) \<Rightarrow> event \<Rightarrow> (string list \<rightharpoonup> byte list)" where
  "apply_write fs (FileWrite path data) = fs(resolve path \<mapsto> data)"
| "apply_write fs _ = fs"

text \<open>The part of a trace after the connection, once the workflow has been submitted: the
  submission, then only receptions, the closing, at most one request for the history
  (present when the listener has returned for the submitted prompt) and requests on
  \<^verbatim>\<open>/view\<close>. \<open>r0\<close> is the outcome of lines 105 to 116.\<close>

definition submitted_tail :: "env \<Rightarrow> json \<Rightarrow> error + json \<Rightarrow> event list \<Rightarrow> bool" where
  "submitted_tail E workflow r0 tail =
     (\<exists>late. tail = PostPrompt (submission E workflow) # late \<and> list_all is_late late \<and>
        ws_connect E = None \<and>
        (filter is_history_request late = [] \<and> (\<exists>e. r0 = Inl e)
         \<or> (\<exists>pid n. filter is_history_request late = [GetHistory pid] \<and>
              queue_prompt E workflow = Inr pid \<and>
              wait_for_execution (loads E) (ws_recv E) pid 0 = Some (None, n) \<and>
              r0 = get_history E pid)))"




text \<open>The components of a path between its separators; \<open>part\<close> is the component being
  read.\<close>

fun components :: "string \<Rightarrow> string \<Rightarrow> string list" where
  "components part [] = [part]"
| "components part (c # cs) =
     (if c = CHR ''/'' then part # components [] cs else components (part @ [c]) cs)"

section \<open>Concrete inputs\<close>

text \<open>A server that answers from its \<open>n\<close>-th request on.\<close>

definition up_from :: "nat \<Rightarrow> nat \<Rightarrow> bool" where
  "up_from n k = (n \<le> k)"

text \<open>A parser given by the texts it accepts, and a channel that delivers the listed
  results of \<^verbatim>\<open>recv\<close> and is closed after them.\<close>

definition loads_of :: "(string \<times> json) list \<Rightarrow> string \<Rightarrow> error + json" where
  "loads_of table s = (case map_of table s of None \<Rightarrow> Inl JSONDecodeError | Some v \<Rightarrow> Inr v)"

definition chan_of :: "recv list \<Rightarrow> nat \<Rightarrow> recv" where
  "chan_of rs k = (if k < length rs then rs ! k else RecvRaises WebSocketException)"

definition done_text :: string where
  \<open>done_text = ''{"type": "executing", "data": {"node": null, "prompt_id": "p1"}}''\<close>

definition status_text :: string where
  \<open>status_text = ''{"type": "status", "data": {"sid": "s"}}''\<close>

definition node_text :: string where
  \<open>node_text = ''{"type": "executing", "data": {"node": "3", "prompt_id": "p1"}}''\<close>

definition other_text :: string where
  \<open>other_text = ''{"type": "executing", "data": {"node": null, "prompt_id": "p0"}}''\<close>

definition message_table :: "(string \<times> json) list" where
  "message_table =
     [(done_text, JObj [(''type'', JStr ''executing''),
          (''data'', JObj [(''node'', JNull), (''prompt_id'', JStr ''p1'')])]),
      (status_text, JObj [(''type'', JStr ''status''),
          (''data'', JObj [(''sid'', JStr ''s'')])]),
      (node_text, JObj [(''type'', JStr ''executing''),
          (''data'', JObj [(''node'', JStr ''3''), (''prompt_id'', JStr ''p1'')])]),
      (other_text, JObj [(''type'', JStr ''executing''),
          (''data'', JObj [(''node'', JNull), (''prompt_id'', JStr ''p0'')])])]"





text \<open>
  A server for the examples: it answers every request to the base address from the second
  one on, accepts the connection, answers the submission with the identifier \<^verbatim>\<open>p1\<close>,
  sends a status message, a progress message and the completion signal, serves the given
  history text and the files of the given store (another file name is an HTTP error).
  Every file can be opened for writing.
\<close>

definition prompt_reply_text :: string where
  \<open>prompt_reply_text = ''{"prompt_id": "p1", "number": 1}''\<close>

definition view_store ::
  "(string \<times> byte list) list \<Rightarrow> nat \<Rightarrow> json \<Rightarrow> json \<Rightarrow> json \<Rightarrow> error + byte list" where
  "view_store store k filename subfolder folder_type =
     (case filename of
        JStr name \<Rightarrow> (case map_of store name of None \<Rightarrow> Inl URLError | Some raw \<Rightarrow> Inr raw)
      | _ \<Rightarrow> Inl URLError)"

definition demo_env :: "string \<Rightarrow> json \<Rightarrow> (string \<times> byte list) list \<Rightarrow> env" where
  "demo_env history_text history_value store =
     \<lparr>loads = loads_of (message_table @
                 [(prompt_reply_text, JObj [(''prompt_id'', JStr ''p1''), (''number'', JInt 1)]),
                  (history_text, history_value)]),
      client_id = ''c0'',
      open_wb = (\<lambda>path. None),
      alive = up_from 1,
      ws_connect = None,
      post_prompt = (\<lambda>payload. Inr prompt_reply_text),
      ws_recv = chan_of [RecvStr status_text, RecvStr node_text, RecvStr done_text],
      history_body = (\<lambda>prompt_id. Inr history_text),
      view = view_store store\<rparr>"

definition demo_job :: json where
  "demo_job =
     JObj [(''id'', JStr ''job-1''),
           (''input'', JObj [(''workflow'', JObj [(''3'', JObj [(''class_type'', JStr ''LoadImage'')])]),
                             (''images'', JArr [JObj [(''name'', JStr ''in.png''),
                                                      (''image'', JStr ''TWFu'')]])])]"

definition out_ref :: "string \<Rightarrow> json" where
  "out_ref name =
     JObj [(''filename'', JStr name), (''subfolder'', JStr ''''), (''type'', JStr ''output'')]"

definition history_one_text :: string where
  \<open>history_one_text = ''{"p1": {"outputs": {"9": {"images": [{"filename": "out.png", "subfolder": "", "type": "output"}]}}}}''\<close>

definition history_one :: json where
  "history_one = JObj [(''outputs'', JObj [(''9'', JObj [(''images'', JArr [out_ref ''out.png''])])])]"

definition history_two_text :: string where
  \<open>history_two_text = ''{"p1": {"outputs": {"9": {"images": [{"filename": "a.png", "subfolder": "", "type": "output"}]}, "10": {"text": ["x"]}, "11": {"images": [{"filename": "b.png", "subfolder": "", "type": "output"}]}}}}''\<close>

definition history_two :: json where
  "history_two =
     JObj [(''outputs'',
            JObj [(''9'', JObj [(''images'', JArr [out_ref ''a.png''])]),
                  (''10'', JObj [(''text'', JArr [JStr ''x''])]),
                  (''11'', JObj [(''images'', JArr [out_ref ''b.png''])])])]"

definition history_none_text :: string where
  \<open>history_none_text = ''{"p1": {"outputs": {"10": {"text": ["x"]}, "11": {"images": []}}}}''\<close>

definition history_none :: json where
  "history_none =
     JObj [(''outputs'',
            JObj [(''10'', JObj [(''text'', JArr [JStr ''x''])]),
                  (''11'', JObj [(''images'', JArr [])])])]"

text \<open>The world in which the example job has reached its history record.\<close>

definition demo_world :: world where
  "demo_world =
     \<lparr>files = [[''input'', ''in.png''] \<mapsto> [77, 97, 110]],
      trace = [FileWrite ''/input/in.png'' [77, 97, 110],
               UrlOpenBase, Sleep 1, UrlOpenBase,
               WsConnect ''c0'',
               PostPrompt (JObj [(''prompt'', JObj [(''3'', JObj [(''class_type'', JStr ''LoadImage'')])]),
                                 (''client_id'', JStr ''c0'')]),
               WsRecv, WsRecv, WsRecv, WsClose,
               GetHistory (JStr ''p1'')]\<rparr>"

text \<open>The example server with the history of one image \<^verbatim>\<open>out.png\<close>, the value the example
  job returns with it, and the world it leaves.\<close>

definition demo_env_one :: env where
  "demo_env_one =
     demo_env history_one_text (JObj [(''p1'', history_one)]) [(''out.png'', [1, 2, 3])]"

definition demo_submission :: json where
  "demo_submission =
     JObj [(''prompt'', JObj [(''3'', JObj [(''class_type'', JStr ''LoadImage'')])]),
           (''client_id'', JStr ''c0'')]"

definition demo_result :: json where
  "demo_result =
     JObj [(''images'', JArr [JObj [(''name'', JStr ''out.png''), (''data'', JStr ''AQID'')]])]"

definition demo_final_world :: world where
  "demo_final_world = emit [GetView (JStr ''out.png'') (JStr '''') (JStr ''output'')] demo_world"





text \<open>A server that answers the submission with an empty identifier.\<close>

definition empty_id_text :: string where
  \<open>empty_id_text = ''{"prompt_id": ""}''\<close>

definition empty_id_env :: env where
  "empty_id_env =
     demo_env_one
       \<lparr>loads := loads_of [(empty_id_text, JObj [(''prompt_id'', JStr '''')])],
        post_prompt := (\<lambda>payload. Inr empty_id_text)\<rparr>"

text \<open>The example server when the workflow copies the input image to its output: the file
  it serves as \<^verbatim>\<open>out.png\<close> has the bytes of the input \<^verbatim>\<open>TWFu\<close>.\<close>

definition echo_env :: env where
  "echo_env =
     demo_env history_one_text (JObj [(''p1'', history_one)]) [(''out.png'', [77, 97, 110])]"

definition echo_result :: json where
  "echo_result =
     JObj [(''images'', JArr [JObj [(''name'', JStr ''out.png''), (''data'', JStr ''TWFu'')]])]"

text \<open>An input image whose name climbs out of the input directory.\<close>

definition climbing_image :: json where
  "climbing_image = JObj [(''name'', JStr ''../etc/passwd''), (''image'', JStr ''TWFu'')]"

section \<open>The readiness loop\<close>

lemma ensure_up_first:
  "up (i + k) \<Longrightarrow> k < n \<Longrightarrow> (\<forall>j<k. \<not> up (i + j)) \<Longrightarrow>
   ensure_up up i n = (concat (replicate k [UrlOpenBase, Sleep 1]) @ [UrlOpenBase], None)"
proof (induction k arbitrary: i n)
  case 0
  then obtain m where "n = Suc m" by (cases n) auto
  with 0 show ?case by simp
next
  case (Suc k)
  then obtain m where n: "n = Suc m" and km: "k < m" by (cases n) auto
  from Suc.prems(3) have down: "\<not> up i" by (metis add.right_neutral zero_less_Suc)
  have "\<forall>j<k. \<not> up (Suc i + j)"
    using Suc.prems(3) by (metis Suc_less_eq add_Suc_shift)
  moreover have "up (Suc i + k)" using Suc.prems(1) by simp
  ultimately have "ensure_up up (Suc i) m =
      (concat (replicate k [UrlOpenBase, Sleep 1]) @ [UrlOpenBase], None)"
    using Suc.IH km by blast
  with down n show ?case by simp
qed

lemma ensure_up_never:
  "(\<forall>j<n. \<not> up (i + j)) \<Longrightarrow>
   ensure_up up i n =
     (concat (replicate n [UrlOpenBase, Sleep 1]), Some (RuntimeError ''ComfyUI not responding''))"
proof (induction n arbitrary: i)
  case 0
  show ?case by simp
next
  case (Suc n)
  from Suc.prems have down: "\<not> up i" by (metis add.right_neutral zero_less_Suc)
  have "\<forall>j<n. \<not> up (Suc i + j)"
    using Suc.prems by (metis Suc_less_eq add_Suc_shift)
  then show ?case using Suc.IH down by simp
qed

lemma ensure_up_raises:
  "snd (ensure_up up i n) = Some e \<Longrightarrow> (\<forall>j<n. \<not> up (i + j))"
proof (induction n arbitrary: i)
  case 0
  show ?case by simp
next
  case (Suc n)
  have down: "\<not> up i" using Suc.prems by (auto split: if_splits)
  then have "snd (ensure_up up (Suc i) n) = Some e"
    using Suc.prems by (simp split: prod.splits)
  then have rest: "\<forall>j<n. \<not> up (Suc i + j)" by (rule Suc.IH)
  show ?case
  proof (intro allI impI)
    fix j assume "j < Suc n"
    then show "\<not> up (i + j)" using down rest by (cases j) auto
  qed
qed

text \<open>
  C4. The readiness loop of \<^verbatim>\<open>handler\<close> (lines 95 to 102) stops at the first request that
  is answered: when request \<open>k\<close> is the first of the 120 to succeed, the loop has made the
  \<open>k\<close> failed requests, each followed by a sleep of one second, then the successful one, and
  nothing after it. It raises only when all 120 requests have failed, and then it has made
  exactly 120 requests, each followed by a sleep of one second.
\<close>

theorem readiness_probe:
  "(\<forall>k. k < 120 \<longrightarrow> up k \<longrightarrow> (\<forall>j<k. \<not> up j) \<longrightarrow>
      ensure_comfy_up up = (concat (replicate k [UrlOpenBase, Sleep 1]) @ [UrlOpenBase], None))
   \<and> (\<forall>e. snd (ensure_comfy_up up) = Some e \<longrightarrow> (\<forall>k<120. \<not> up k))
   \<and> ((\<forall>k<120. \<not> up k) \<longrightarrow>
      ensure_comfy_up up =
        (concat (replicate 120 [UrlOpenBase, Sleep 1]),
         Some (RuntimeError ''ComfyUI not responding'')))"
proof (intro conjI allI impI)
  fix k assume "k < 120" "up k" "\<forall>j<k. \<not> up j"
  then show "ensure_comfy_up up =
      (concat (replicate k [UrlOpenBase, Sleep 1]) @ [UrlOpenBase], None)"
    unfolding ensure_comfy_up_def using ensure_up_first [of up 0 k 120] by simp
next
  fix e k assume r: "snd (ensure_comfy_up up) = Some e" and k: "k < (120::nat)"
  from r have "\<forall>j<120. \<not> up (0 + j)"
    unfolding ensure_comfy_up_def by (rule ensure_up_raises)
  with k show "\<not> up k" by simp
next
  assume "\<forall>k<120. \<not> up k"
  then show "ensure_comfy_up up =
        (concat (replicate 120 [UrlOpenBase, Sleep 1]),
         Some (RuntimeError ''ComfyUI not responding''))"
    unfolding ensure_comfy_up_def using ensure_up_never [of 120 up 0] by simp
qed

theorem readiness_probe_witness:
  "ensure_comfy_up (up_from 2) =
     (concat (replicate 2 [UrlOpenBase, Sleep 1]) @ [UrlOpenBase], None)
   \<and> ensure_comfy_up (up_from 120) =
     (concat (replicate 120 [UrlOpenBase, Sleep 1]),
      Some (RuntimeError ''ComfyUI not responding''))"
proof -
  have a: "(2::nat) < 120" "up_from 2 2" "\<forall>j<2. \<not> up_from 2 j"
    by (simp_all add: up_from_def)
  have b: "\<forall>k<120. \<not> up_from 120 k" by (simp add: up_from_def)
  from readiness_probe [of "up_from 2"] a
  have one: "ensure_comfy_up (up_from 2) =
     (concat (replicate 2 [UrlOpenBase, Sleep 1]) @ [UrlOpenBase], None)"
    by blast
  from readiness_probe [of "up_from 120"] b
  have two: "ensure_comfy_up (up_from 120) =
        (concat (replicate 120 [UrlOpenBase, Sleep 1]),
         Some (RuntimeError ''ComfyUI not responding''))"
    by blast
  from one two show ?thesis by (rule conjI)
qed

section \<open>The completion listener\<close>

lemma wait_skips:
  "is_ignorable ld pid (ws k) \<Longrightarrow>
   wait_for_execution ld ws pid k = wait_for_execution ld ws pid (Suc k)"
  by (subst wait_for_execution.simps)
     (cases "ws k"; auto split: sum.splits)

lemma wait_stops:
  "is_completion_signal ld pid (ws k) \<Longrightarrow>
   wait_for_execution ld ws pid k = Some (None, Suc k)"
  by (subst wait_for_execution.simps)
     (cases "ws k"; auto split: sum.splits)















section \<open>Collecting the images\<close>

lemma fetches_length: "fetches E k imgs raws \<Longrightarrow> length raws = length imgs"
  by (induction imgs arbitrary: k raws) (auto split: list.splits)

lemma fetches_append:
  "fetches E k (xs @ ys) raws \<longleftrightarrow>
   fetches E k xs (take (length xs) raws) \<and> fetches E (k + length xs) ys (drop (length xs) raws)"
  by (induction xs arbitrary: k raws) (auto split: list.splits)

lemma ref_ok_fields:
  "ref_ok img \<Longrightarrow>
   py_getitem img (JStr ''filename'') = Inr (field img ''filename'') \<and>
   py_getitem img (JStr ''subfolder'') = Inr (field img ''subfolder'') \<and>
   py_getitem img (JStr ''type'') = Inr (field img ''type'')"
  by (auto simp: ref_ok_def has_field_def field_def split: sum.splits)

lemma collect_node_ok:
  "list_all ref_ok imgs \<Longrightarrow> fetches E k imgs raws \<Longrightarrow>
   collect_node E imgs k acc =
     (map view_event imgs, Inr (k + length imgs, acc @ map2 image_entry imgs raws))"
proof (induction imgs arbitrary: k acc raws)
  case Nil
  then show ?case by simp
next
  case (Cons img imgs)
  from Cons.prems(2) obtain raw rest where raws: "raws = raw # rest"
    and f: "fetch E k img = Inr raw" and fs: "fetches E (Suc k) imgs rest"
    by (auto split: list.splits)
  from Cons.prems(1) have ok: "ref_ok img" and oks: "list_all ref_ok imgs" by simp_all
  note flds = ref_ok_fields [OF ok]
  have g: "get_image E k (field img ''filename'') (field img ''subfolder'') (field img ''type'')
      = Inr raw"
    using f by (simp add: fetch_def)
  show ?case
    using Cons.IH [OF oks fs] flds g raws
    by (simp add: view_event_def image_entry_def)
qed

lemma collect_node_fail:
  "list_all ref_ok imgs \<Longrightarrow> i < length imgs \<Longrightarrow> fetches E k (take i imgs) raws \<Longrightarrow>
   fetch E (k + i) (imgs ! i) = Inl e \<Longrightarrow>
   collect_node E imgs k acc = (map view_event (take (Suc i) imgs), Inl e)"
proof (induction imgs arbitrary: k acc raws i)
  case Nil
  then show ?case by simp
next
  case (Cons img imgs)
  from Cons.prems(1) have ok: "ref_ok img" and oks: "list_all ref_ok imgs" by simp_all
  note flds = ref_ok_fields [OF ok]
  show ?case
  proof (cases i)
    case 0
    with Cons.prems(4) have "get_image E k (field img ''filename'') (field img ''subfolder'')
        (field img ''type'') = Inl e"
      by (simp add: fetch_def)
    with 0 flds show ?thesis by (simp add: view_event_def)
  next
    case (Suc i')
    with Cons.prems(3) obtain raw rest where raws: "raws = raw # rest"
      and f: "fetch E k img = Inr raw" and fs: "fetches E (Suc k) (take i' imgs) rest"
      by (auto split: list.splits)
    have g: "get_image E k (field img ''filename'') (field img ''subfolder'')
        (field img ''type'') = Inr raw"
      using f by (simp add: fetch_def)
    from Suc Cons.prems(2,4) have i': "i' < length imgs"
      and bad: "fetch E (Suc k + i') (imgs ! i') = Inl e" by simp_all
    show ?thesis
      using Cons.IH [OF oks i' fs bad] flds g Suc
      by (simp add: view_event_def)
  qed
qed

lemma node_refs_cases:
  assumes "node_refs node = Some rs"
  obtains (absent) "py_contains ''images'' node = Inr False" "rs = []"
  | (present) "py_contains ''images'' node = Inr True"
      "py_getitem node (JStr ''images'') = Inr (JArr rs)" "list_all ref_ok rs"
  using assms
  by (cases node) (auto split: option.splits json.splits if_splits)

lemma collect_images_ok:
  "gather_refs nodes = Some refs \<Longrightarrow> fetches E k refs raws \<Longrightarrow>
   collect_images E nodes k acc = (map view_event refs, Inr (acc @ map2 image_entry refs raws))"
proof (induction nodes arbitrary: k acc refs raws)
  case Nil
  then show ?case by simp
next
  case (Cons node nodes)
  from Cons.prems(1) obtain rs rest where rs: "node_refs node = Some rs"
    and rest: "gather_refs nodes = Some rest" and refs: "refs = rs @ rest"
    by (auto split: option.splits)
  from Cons.prems(2) refs
  have f1: "fetches E k rs (take (length rs) raws)"
    and f2: "fetches E (k + length rs) rest (drop (length rs) raws)"
    by (simp_all add: fetches_append)
  note ih = Cons.IH [OF rest f2]
  from rs show ?case
  proof (cases rule: node_refs_cases)
    case absent
    with ih refs show ?thesis by simp
  next
    case present
    have len: "length (take (length rs) raws) = length rs"
      using fetches_length [OF f1] .
    have z: "map2 image_entry (rs @ rest) raws =
        map2 image_entry rs (take (length rs) raws) @
        map2 image_entry rest (drop (length rs) raws)"
      using len by (metis append_take_drop_id map_append zip_append)
    show ?thesis
      using present collect_node_ok [OF present(3) f1] ih refs z
      by simp
  qed
qed

lemma collect_images_fail:
  "gather_refs nodes = Some refs \<Longrightarrow> i < length refs \<Longrightarrow> fetches E k (take i refs) raws \<Longrightarrow>
   fetch E (k + i) (refs ! i) = Inl e \<Longrightarrow>
   collect_images E nodes k acc = (map view_event (take (Suc i) refs), Inl e)"
proof (induction nodes arbitrary: k acc refs raws i)
  case Nil
  then show ?case by simp
next
  case (Cons node nodes)
  from Cons.prems(1) obtain rs rest where rs: "node_refs node = Some rs"
    and rest: "gather_refs nodes = Some rest" and refs: "refs = rs @ rest"
    by (auto split: option.splits)
  show ?case
  proof (cases "i < length rs")
    case True
    with refs Cons.prems(3,4) have f: "fetches E k (take i rs) raws"
      and bad: "fetch E (k + i) (rs ! i) = Inl e"
      by (simp_all add: nth_append)
    from True have "rs \<noteq> []" by auto
    with rs have present: "py_contains ''images'' node = Inr True \<and>
      py_getitem node (JStr ''images'') = Inr (JArr rs) \<and> list_all ref_ok rs"
      by (cases node) (auto split: option.splits json.splits if_splits)
    then have ok: "list_all ref_ok rs" by simp
    show ?thesis
      using present collect_node_fail [OF ok True f bad] refs True
      by simp
  next
    case False
    define i' where "i' = i - length rs"
    from False have i: "i = length rs + i'" by (simp add: i'_def)
    from Cons.prems(2) refs i have i'len: "i' < length rest" by simp
    from Cons.prems(3) refs i
    have "fetches E k (rs @ take i' rest) raws" by simp
    then have f1: "fetches E k rs (take (length rs) raws)"
      and f2: "fetches E (k + length rs) (take i' rest) (drop (length rs) raws)"
      by (simp_all add: fetches_append)
    from Cons.prems(4) refs i
    have bad: "fetch E (k + length rs + i') (rest ! i') = Inl e"
      by (simp add: nth_append add.assoc)
    note ih = Cons.IH [OF rest i'len f2 bad]
    have tk: "take (Suc i) refs = rs @ take (Suc i') rest"
      using refs i by simp
    from rs show ?thesis
    proof (cases rule: node_refs_cases)
      case absent
      with ih tk show ?thesis by simp
    next
      case present
      show ?thesis
        using present collect_node_ok [OF present(3) f1] ih tk
        by simp
    qed
  qed
qed
lemma fetches_or_fails:
  "(\<exists>raws. fetches E k refs raws) \<or>
   (\<exists>i raws e. i < length refs \<and> fetches E k (take i refs) raws \<and>
      fetch E (k + i) (refs ! i) = Inl e)"
proof (induction refs arbitrary: k)
  case Nil
  show ?case by simp
next
  case (Cons r refs)
  show ?case
  proof (cases "fetch E k r")
    case (Inl e)
    then have "0 < length (r # refs) \<and> fetches E k (take 0 (r # refs)) [] \<and>
      fetch E (k + 0) ((r # refs) ! 0) = Inl e" by simp
    then show ?thesis by blast
  next
    case (Inr raw)
    from Cons.IH [of "Suc k"] show ?thesis
    proof
      assume "\<exists>raws. fetches E (Suc k) refs raws"
      then obtain raws where "fetches E (Suc k) refs raws" ..
      with Inr have "fetches E k (r # refs) (raw # raws)" by simp
      then show ?thesis by blast
    next
      assume "\<exists>i raws e. i < length refs \<and> fetches E (Suc k) (take i refs) raws \<and>
        fetch E (Suc k + i) (refs ! i) = Inl e"
      then obtain i raws e where "i < length refs" "fetches E (Suc k) (take i refs) raws"
        "fetch E (Suc k + i) (refs ! i) = Inl e" by blast
      with Inr have "Suc i < length (r # refs) \<and>
        fetches E k (take (Suc i) (r # refs)) (raw # raws) \<and>
        fetch E (k + Suc i) ((r # refs) ! Suc i) = Inl e" by simp
      then show ?thesis by blast
    qed
  qed
qed

subsection \<open>The example server\<close>

lemmas text_defs = done_text_def status_text_def node_text_def other_text_def
  prompt_reply_text_def history_one_text_def history_two_text_def history_none_text_def

lemma b64_TWFu: "b64decode (JStr ''TWFu'') = Inr [77, 97, 110]"
  by (simp add: b64_index_def b64_alphabet_def)

lemma demo_save:
  "save_input_images (demo_env t h st)
     [JObj [(''name'', JStr ''in.png''), (''image'', JStr ''TWFu'')]]
     \<lparr>files = Map.empty, trace = []\<rparr>
   = (None, \<lparr>files = [[''input'', ''in.png''] \<mapsto> [77, 97, 110]],
             trace = [FileWrite ''/input/in.png'' [77, 97, 110]]\<rparr>)"
  by (simp add: b64_TWFu demo_env_def INPUT_DIR_def os_path_join_def emit_def resolve_def
      enter_def del: b64decode.simps)

lemma demo_up:
  "ensure_comfy_up (alive (demo_env t h st)) = ([UrlOpenBase, Sleep 1, UrlOpenBase], None)"
  using ensure_up_first [of "up_from 1" 0 1 120]
  by (simp add: ensure_comfy_up_def demo_env_def up_from_def)

lemma demo_queue:
  "queue_prompt (demo_env t h st) workflow = Inr (JStr ''p1'')"
  by (simp add: queue_prompt_def demo_env_def loads_of_def message_table_def text_defs)

lemma demo_wait:
  "wait_for_execution (loads (demo_env t h st)) (ws_recv (demo_env t h st)) (JStr ''p1'') 0
   = Some (None, 3)"
proof -
  let ?ld = "loads_of (message_table @
                 [(prompt_reply_text, JObj [(''prompt_id'', JStr ''p1''), (''number'', JInt 1)]),
                  (t, h)])"
  let ?ws = "chan_of [RecvStr status_text, RecvStr node_text, RecvStr done_text]"
  have 0: "is_ignorable ?ld (JStr ''p1'') (?ws 0)"
    by (simp add: chan_of_def loads_of_def message_table_def text_defs)
  have 1: "is_ignorable ?ld (JStr ''p1'') (?ws (Suc 0))"
    by (simp add: chan_of_def loads_of_def message_table_def text_defs)
  have 2: "is_completion_signal ?ld (JStr ''p1'') (?ws (Suc (Suc 0)))"
    by (simp add: chan_of_def loads_of_def message_table_def text_defs)
  have "wait_for_execution ?ld ?ws (JStr ''p1'') 0 = Some (None, Suc (Suc (Suc 0)))"
    using wait_skips [of ?ld "JStr ''p1''" ?ws 0, OF 0]
      wait_skips [of ?ld "JStr ''p1''" ?ws "Suc 0", OF 1]
      wait_stops [of ?ld "JStr ''p1''" ?ws "Suc (Suc 0)", OF 2] by simp
  then show ?thesis by (simp add: demo_env_def numeral_3_eq_3)
qed


lemma demo_to_history:
  assumes "t \<notin> set (map fst message_table)" and "t \<noteq> prompt_reply_text"
  shows "handler_to_history (demo_env t (JObj [(''p1'', hist)]) st) demo_job Map.empty
         = Some (Inr hist, demo_world)"
proof -
  let ?E = "demo_env t (JObj [(''p1'', hist)]) st"
  have ld: "loads ?E t = Inr (JObj [(''p1'', hist)])"
    using assms by (auto simp: demo_env_def loads_of_def map_of_eq_None_iff [THEN iffD2]
        split: option.splits)
  have gh: "get_history ?E (JStr ''p1'') = Inr hist"
    using ld by (simp add: get_history_def) (simp add: demo_env_def)
  have misc: "client_id ?E = ''c0''" "ws_connect ?E = None"
    by (simp_all add: demo_env_def)
  show ?thesis
    unfolding handler_to_history_def demo_job_def
    by (simp add: demo_save demo_up demo_queue demo_wait gh misc emit_def demo_world_def
        numeral_3_eq_3 del: save_input_images.simps)
qed

lemma history_texts_fresh:
  "history_one_text \<notin> set (map fst message_table)" "history_one_text \<noteq> prompt_reply_text"
  "history_two_text \<notin> set (map fst message_table)" "history_two_text \<noteq> prompt_reply_text"
  "history_none_text \<notin> set (map fst message_table)" "history_none_text \<noteq> prompt_reply_text"
  by (simp_all add: message_table_def text_defs)

lemma refs_two: "artifact_refs history_two = Some [out_ref ''a.png'', out_ref ''b.png'']"
  by (simp add: artifact_refs_def history_two_def out_ref_def ref_ok_def has_field_def)

lemma refs_none: "artifact_refs history_none = Some []"
  by (simp add: artifact_refs_def history_none_def)

lemma out_ref_fields:
  "field (out_ref n) ''filename'' = JStr n"
  "field (out_ref n) ''subfolder'' = JStr ''''"
  "field (out_ref n) ''type'' = JStr ''output''"
  by (simp_all add: field_def out_ref_def)

lemma b64_samples: "b64encode [1, 2, 3] = ''AQID''" "b64encode [4] = ''BA==''"
  by (simp_all add: b64_char_def b64_alphabet_def)


subsection \<open>The result of the handler\<close>




text \<open>
  C3. When the job has reached a history record that holds no artifact reference (every
  node is without \<^verbatim>\<open>images\<close> or has an empty list), the handler returns
  \<^verbatim>\<open>{"error": "No images generated"}\<close> as its value, raises nothing and makes no request
  on \<^verbatim>\<open>/view\<close>.
\<close>

theorem no_images_generated:
  assumes "handler_to_history E job fs = Some (Inr history, w)"
    and "artifact_refs history = Some []"
  shows "handler E job fs = Some (Inr (JObj [(''error'', JStr ''No images generated'')]), w)"
proof -
  from assms(2) obtain kvs where out: "py_getitem history (JStr ''outputs'') = Inr (JObj kvs)"
    and g: "gather_refs (map snd kvs) = Some []"
    by (auto simp: artifact_refs_def split: sum.splits json.splits)
  have "fetches E 0 [] []" by simp
  with g have "collect_images E (map snd kvs) 0 [] =
      (map view_event [], Inr ([] @ map2 image_entry [] []))"
    by (rule collect_images_ok)
  then show ?thesis
    using assms(1) out by (simp add: handler_def handler_result_def emit_def)
qed

theorem no_images_generated_witness:
  "handler (demo_env history_none_text (JObj [(''p1'', history_none)]) []) demo_job Map.empty
   = Some (Inr (JObj [(''error'', JStr ''No images generated'')]), demo_world)"
proof -
  let ?E = "demo_env history_none_text (JObj [(''p1'', history_none)]) []"
  have h: "handler_to_history ?E demo_job Map.empty = Some (Inr history_none, demo_world)"
    using history_texts_fresh by (intro demo_to_history)
  from no_images_generated [OF h refs_none] show ?thesis .
qed

text \<open>
  C5. When the request for the reference number \<open>i\<close> is the first to fail, the handler
  raises the exception of that request, after the \<open>i + 1\<close> requests made so far, and
  returns no value. A returned \<^verbatim>\<open>{"images": [...]}\<close> has one entry for every reference
  of the history record, all of whose requests have succeeded: never a part of them.
\<close>

theorem retrieval_failure_fails_job:
  assumes "handler_to_history E job fs = Some (Inr history, w)"
    and "artifact_refs history = Some refs"
  shows "(\<forall>i raws e. i < length refs \<and> fetches E 0 (take i refs) raws \<and>
            fetch E i (refs ! i) = Inl e \<longrightarrow>
            handler E job fs = Some (Inl e, emit (map view_event (take (Suc i) refs)) w))
         \<and> (\<forall>outs w'. handler E job fs = Some (Inr (JObj [(''images'', JArr outs)]), w') \<longrightarrow>
            length outs = length refs \<and> (\<exists>raws. fetches E 0 refs raws))"
proof -
  from assms(2) obtain kvs where out: "py_getitem history (JStr ''outputs'') = Inr (JObj kvs)"
    and g: "gather_refs (map snd kvs) = Some refs"
    by (auto simp: artifact_refs_def split: sum.splits json.splits)
  have fail: "handler E job fs = Some (Inl e, emit (map view_event (take (Suc i) refs)) w)"
    if "i < length refs" "fetches E 0 (take i refs) raws" "fetch E i (refs ! i) = Inl e"
    for i raws e
  proof -
    have "collect_images E (map snd kvs) 0 [] = (map view_event (take (Suc i) refs), Inl e)"
      using g that by (intro collect_images_fail [where raws = raws]) simp_all
    then show ?thesis using assms(1) out by (simp add: handler_def handler_result_def)
  qed
  have whole: "length outs = length refs \<and> (\<exists>raws. fetches E 0 refs raws)"
    if h: "handler E job fs = Some (Inr (JObj [(''images'', JArr outs)]), w')" for outs w'
  proof -
    from fetches_or_fails [of E 0 refs] show ?thesis
    proof
      assume "\<exists>raws. fetches E 0 refs raws"
      then obtain raws where f: "fetches E 0 refs raws" ..
      have c: "collect_images E (map snd kvs) 0 [] =
          (map view_event refs, Inr ([] @ map2 image_entry refs raws))"
        using g f by (rule collect_images_ok)
      have len: "length raws = length refs" using f by (rule fetches_length)
      from h assms(1) out c have "outs = map2 image_entry refs raws"
        by (simp add: handler_def handler_result_def split: if_splits)
      with len f show ?thesis by auto
    next
      assume "\<exists>i raws e. i < length refs \<and> fetches E 0 (take i refs) raws \<and>
        fetch E (0 + i) (refs ! i) = Inl e"
      then obtain i raws e where "i < length refs" "fetches E 0 (take i refs) raws"
        "fetch E i (refs ! i) = Inl e" by auto
      from fail [OF this] h show ?thesis by simp
    qed
  qed
  from fail whole show ?thesis by blast
qed

theorem retrieval_failure_fails_job_witness:
  "handler (demo_env history_two_text (JObj [(''p1'', history_two)])
              [(''a.png'', [1, 2, 3])]) demo_job Map.empty
   = Some (Inl URLError,
           emit [GetView (JStr ''a.png'') (JStr '''') (JStr ''output''),
                 GetView (JStr ''b.png'') (JStr '''') (JStr ''output'')] demo_world)"
proof -
  let ?E = "demo_env history_two_text (JObj [(''p1'', history_two)]) [(''a.png'', [1, 2, 3])]"
  let ?refs = "[out_ref ''a.png'', out_ref ''b.png'']"
  have h: "handler_to_history ?E demo_job Map.empty = Some (Inr history_two, demo_world)"
    using history_texts_fresh by (intro demo_to_history)
  have f: "fetches ?E 0 (take 1 ?refs) [[1, 2, 3]]"
    by (simp add: fetch_def get_image_def out_ref_fields) (simp add: demo_env_def view_store_def)
  have bad: "fetch ?E 1 (?refs ! 1) = Inl URLError"
    by (simp add: fetch_def get_image_def out_ref_fields) (simp add: demo_env_def view_store_def)
  have i: "(1::nat) < length ?refs" by simp
  from retrieval_failure_fails_job [OF h refs_two] i f bad
  have "handler ?E demo_job Map.empty =
      Some (Inl URLError, emit (map view_event (take (Suc 1) ?refs)) demo_world)"
    by blast
  then show ?thesis by (simp add: view_event_def out_ref_fields)
qed

section \<open>The order of a run\<close>

lemma emit_emit: "emit b (emit a w) = emit (a @ b) w"
  by (simp add: emit_def)

lemma emit_fields [simp]: "trace (emit es w) = trace w @ es" "files (emit es w) = files w"
  by (simp_all add: emit_def)

lemma handler_to_history_eq:
  "handler_to_history E job fs =
     (case job_parts job of
        Inl e \<Rightarrow> Some (Inl e, \<lparr>files = fs, trace = []\<rparr>)
      | Inr (workflow, imgs) \<Rightarrow>
          (case save_input_images E imgs \<lparr>files = fs, trace = []\<rparr> of
             (Some e, w1) \<Rightarrow> Some (Inl e, w1)
           | (None, w1) \<Rightarrow>
               (case ensure_comfy_up (alive E) of
                  (tr, Some e) \<Rightarrow> Some (Inl e, emit tr w1)
                | (tr, None) \<Rightarrow> after_ready E workflow (emit tr w1))))"
  unfolding handler_to_history_def job_parts_def after_ready_def submission_def Let_def
  by (simp add: emit_emit split: sum.splits prod.splits option.splits)

lemma save_writes_only:
  "save_input_images E imgs w = (r, w') \<Longrightarrow>
   \<exists>ws. trace w' = trace w @ ws \<and> list_all is_write ws \<and> files w' = foldl apply_write (files w) ws"
proof (induction imgs arbitrary: w)
  case Nil
  then show ?case by auto
next
  case (Cons img imgs)
  show ?case
  proof (cases "save_input_images E (img # imgs) w = (r, w') \<and> w' = w \<and> r \<noteq> None")
    case True
    then have "trace w' = trace w @ [] \<and> list_all is_write [] \<and>
      files w' = foldl apply_write (files w) []" by simp
    then show ?thesis by blast
  next
    case False
    with Cons.prems obtain path data where
      rec: "save_input_images E imgs
              (emit [FileWrite path data] (w\<lparr>files := (files w)(resolve path \<mapsto> data)\<rparr>)) = (r, w')"
      by (auto split: sum.splits option.splits)
    let ?w = "emit [FileWrite path data] (w\<lparr>files := (files w)(resolve path \<mapsto> data)\<rparr>)"
    from Cons.IH [OF rec] obtain ws where
      a: "trace w' = trace ?w @ ws" and b: "list_all is_write ws"
      and c: "files w' = foldl apply_write (files ?w) ws"
      by blast
    have "trace ?w = trace w @ [FileWrite path data]" "files ?w = (files w)(resolve path \<mapsto> data)"
      by simp_all
    with a b c have "trace w' = trace w @ (FileWrite path data # ws) \<and>
      list_all is_write (FileWrite path data # ws) \<and>
      files w' = foldl apply_write (files w) (FileWrite path data # ws)" by simp
    then show ?thesis by blast
  qed
qed

lemma save_ok:
  "save_input_images E imgs w = (None, w') \<Longrightarrow>
   \<exists>ws. trace w' = trace w @ ws \<and> list_all2 writes_image imgs ws \<and>
        files w' = foldl apply_write (files w) ws"
proof (induction imgs arbitrary: w)
  case Nil
  then show ?case by auto
next
  case (Cons img imgs)
  from Cons.prems obtain name encoded data where
    n: "py_getitem img (JStr ''name'') = Inr (JStr name)"
    and i: "py_getitem img (JStr ''image'') = Inr encoded"
    and d: "b64decode encoded = Inr data"
    and rec: "save_input_images E imgs
              (emit [FileWrite (os_path_join INPUT_DIR name) data]
                 (w\<lparr>files := (files w)(resolve (os_path_join INPUT_DIR name) \<mapsto> data)\<rparr>)) = (None, w')"
    by (auto split: sum.splits option.splits elim!: os_path_join_json.elims)
  let ?ev = "FileWrite (os_path_join INPUT_DIR name) data"
  from n i d have wi: "writes_image img ?ev" by (simp add: writes_image_def)
  let ?w = "emit [?ev] (w\<lparr>files := (files w)(resolve (os_path_join INPUT_DIR name) \<mapsto> data)\<rparr>)"
  from Cons.IH [OF rec] obtain ws where
    a: "trace w' = trace ?w @ ws" and b: "list_all2 writes_image imgs ws"
    and c: "files w' = foldl apply_write (files ?w) ws"
    by blast
  have "trace ?w = trace w @ [?ev]"
    "files ?w = (files w)(resolve (os_path_join INPUT_DIR name) \<mapsto> data)"
    by simp_all
  with a b c wi have "trace w' = trace w @ (?ev # ws) \<and> list_all2 writes_image (img # imgs) (?ev # ws) \<and>
      files w' = foldl apply_write (files w) (?ev # ws)" by simp
  then show ?case by blast
qed

lemma writes_image_event:
  assumes "writes_image img ev"
  shows "is_write ev"
proof -
  from assms obtain name where n: "py_getitem img (JStr ''name'') = Inr (JStr name)"
    by (auto simp: writes_image_def split: sum.splits json.splits)
  with assms obtain encoded where i: "py_getitem img (JStr ''image'') = Inr encoded"
    by (auto simp: writes_image_def split: sum.splits)
  with assms n obtain data where "ev = FileWrite (os_path_join INPUT_DIR name) data"
    by (auto simp: writes_image_def split: sum.splits)
  then show ?thesis by simp
qed

lemma writes_image_is_write: "list_all2 writes_image imgs ws \<Longrightarrow> list_all is_write ws"
  by (induction rule: list_all2_induct) (simp_all add: writes_image_event)

lemma ensure_up_probes: "ensure_up up i n = (tr, r) \<Longrightarrow> list_all is_probe tr"
proof (induction n arbitrary: i tr)
  case 0
  then show ?case by simp
next
  case (Suc n)
  show ?case
  proof (cases "up i")
    case True
    with Suc.prems show ?thesis by auto
  next
    case False
    with Suc.prems obtain t where "ensure_up up (Suc i) n = (t, r)" "tr = UrlOpenBase # Sleep 1 # t"
      by (auto split: prod.splits)
    with Suc.IH show ?thesis by auto
  qed
qed

lemma ensure_up_success:
  "ensure_up up i n = (tr, None) \<Longrightarrow> \<exists>tr'. tr = tr' @ [UrlOpenBase] \<and> list_all is_probe tr'"
proof (induction n arbitrary: i tr)
  case 0
  then show ?case by simp
next
  case (Suc n)
  show ?case
  proof (cases "up i")
    case True
    with Suc.prems have "tr = [] @ [UrlOpenBase] \<and> list_all is_probe []" by simp
    then show ?thesis by blast
  next
    case False
    with Suc.prems obtain t where t: "ensure_up up (Suc i) n = (t, None)"
      and tr: "tr = UrlOpenBase # Sleep 1 # t"
      by (auto split: prod.splits)
    from Suc.IH [OF t] obtain t' where "t = t' @ [UrlOpenBase]" "list_all is_probe t'" by blast
    with tr have "tr = (UrlOpenBase # Sleep 1 # t') @ [UrlOpenBase] \<and>
      list_all is_probe (UrlOpenBase # Sleep 1 # t')" by simp
    then show ?thesis by blast
  qed
qed

lemma after_ready_cases:
  assumes "after_ready E workflow w = Some (r, w')"
  obtains
    (refused) e where "ws_connect E = Some e" "r = Inl e"
      "w' = emit [WsConnect (client_id E)] w"
  | (rejected) e where "ws_connect E = None" "queue_prompt E workflow = Inl e" "r = Inl e"
      "w' = emit [WsConnect (client_id E), PostPrompt (submission E workflow)] w"
  | (dropped) pid e n where "ws_connect E = None" "queue_prompt E workflow = Inr pid"
      "wait_for_execution (loads E) (ws_recv E) pid 0 = Some (Some e, n)" "r = Inl e"
      "w' = emit ([WsConnect (client_id E), PostPrompt (submission E workflow)]
                  @ replicate n WsRecv) w"
  | (finished) pid n where "ws_connect E = None" "queue_prompt E workflow = Inr pid"
      "wait_for_execution (loads E) (ws_recv E) pid 0 = Some (None, n)"
      "r = get_history E pid"
      "w' = emit ([WsConnect (client_id E), PostPrompt (submission E workflow)]
                  @ replicate n WsRecv @ [WsClose, GetHistory pid]) w"
  using assms unfolding after_ready_def Let_def
  by (auto simp: emit_emit split: option.splits sum.splits prod.splits)

lemma collect_node_views:
  "collect_node E imgs k acc = (tr, r) \<Longrightarrow> list_all is_view tr"
proof (induction imgs arbitrary: k acc tr)
  case Nil
  then show ?case by simp
next
  case (Cons img imgs)
  show ?case
  proof (cases "\<exists>f s t. tr = [GetView f s t] \<or> tr = []")
    case True
    then show ?thesis by auto
  next
    case False
    with Cons.prems obtain f s t k' acc' tr' where
      "collect_node E imgs k' acc' = (tr', r)" "tr = GetView f s t # tr'"
      by (auto split: sum.splits prod.splits)
    with Cons.IH show ?thesis by auto
  qed
qed

lemma collect_images_views:
  "collect_images E nodes k acc = (tr, r) \<Longrightarrow> list_all is_view tr"
proof (induction nodes arbitrary: k acc tr)
  case Nil
  then show ?case by simp
next
  case (Cons node nodes)
  from Cons.prems consider
      (stop) "tr = []"
    | (skip) "collect_images E nodes k acc = (tr, r)"
    | (fail) imgs e where "collect_node E imgs k acc = (tr, Inl e)"
    | (more) imgs t1 k' acc' t2 where "collect_node E imgs k acc = (t1, Inr (k', acc'))"
        "collect_images E nodes k' acc' = (t2, r)" "tr = t1 @ t2"
    by (auto split: sum.splits prod.splits if_splits)
  then show ?case
  proof cases
    case stop
    then show ?thesis by simp
  next
    case skip
    then show ?thesis by (rule Cons.IH)
  next
    case fail
    then show ?thesis by (rule collect_node_views)
  next
    case more
    from collect_node_views [OF more(1)] Cons.IH [OF more(2)] more(3)
    show ?thesis by simp
  qed
qed

lemma handler_result_views:
  assumes "handler_result E history w = (r, w')"
  shows "files w' = files w \<and> (\<exists>vs. trace w' = trace w @ vs \<and> list_all is_view vs)"
proof -
  from assms consider (early) "w' = w"
    | (collected) nodes tr c where "collect_images E nodes 0 [] = (tr, c)" "w' = emit tr w"
    by (auto simp: handler_result_def split: sum.splits prod.splits if_splits)
  then show ?thesis
  proof cases
    case early
    then have "files w' = files w \<and> trace w' = trace w @ [] \<and> list_all is_view []" by simp
    then show ?thesis by blast
  next
    case collected
    from collect_images_views [OF collected(1)] collected(2)
    have "files w' = files w \<and> trace w' = trace w @ tr \<and> list_all is_view tr" by simp
    then show ?thesis by blast
  qed
qed

lemma handler_cases:
  assumes "handler E job fs = Some (r, w)"
  obtains
    (no_input) e where "job_parts job = Inl e" "r = Inl e" "w = \<lparr>files = fs, trace = []\<rparr>"
  | (save_failed) workflow imgs e where "job_parts job = Inr (workflow, imgs)"
      "save_input_images E imgs \<lparr>files = fs, trace = []\<rparr> = (Some e, w)" "r = Inl e"
  | (not_ready) workflow imgs w1 tr e where "job_parts job = Inr (workflow, imgs)"
      "save_input_images E imgs \<lparr>files = fs, trace = []\<rparr> = (None, w1)"
      "ensure_comfy_up (alive E) = (tr, Some e)" "r = Inl e" "w = emit tr w1"
  | (ready) workflow imgs w1 tr r0 w2 vs where "job_parts job = Inr (workflow, imgs)"
      "save_input_images E imgs \<lparr>files = fs, trace = []\<rparr> = (None, w1)"
      "ensure_comfy_up (alive E) = (tr, None)"
      "after_ready E workflow (emit tr w1) = Some (r0, w2)"
      "trace w = trace w2 @ vs" "list_all is_view vs" "files w = files w2"
      "case r0 of Inl e \<Rightarrow> r = Inl e \<and> vs = [] | Inr h \<Rightarrow> (r, w) = handler_result E h w2"
proof -
  from assms obtain r0 w0 where h: "handler_to_history E job fs = Some (r0, w0)"
    and fin: "case r0 of Inl e \<Rightarrow> r = Inl e \<and> w = w0 | Inr h \<Rightarrow> (r, w) = handler_result E h w0"
    by (auto simp: handler_def split: option.splits sum.splits prod.splits)
  have tail: "\<exists>vs. trace w = trace w0 @ vs \<and> list_all is_view vs \<and> files w = files w0 \<and>
      (case r0 of Inl e \<Rightarrow> r = Inl e \<and> vs = [] | Inr h \<Rightarrow> (r, w) = handler_result E h w0)"
  proof (cases r0)
    case (Inl e)
    with fin have "trace w = trace w0 @ [] \<and> list_all is_view [] \<and> files w = files w0 \<and>
      (case r0 of Inl e \<Rightarrow> r = Inl e \<and> [] = [] | Inr h \<Rightarrow> (r, w) = handler_result E h w0)"
      by simp
    then show ?thesis by blast
  next
    case (Inr hist)
    with fin have hr: "handler_result E hist w0 = (r, w)" by simp
    from handler_result_views [OF hr] obtain vs where
      "files w = files w0" "trace w = trace w0 @ vs" "list_all is_view vs" by blast
    with Inr hr show ?thesis by auto
  qed
  from h [unfolded handler_to_history_eq] show ?thesis
  proof (cases "job_parts job")
    case (Inl e)
    with h fin show ?thesis
      by (intro no_input [of e]) (auto simp: handler_to_history_eq)
  next
    case (Inr p)
    then obtain workflow imgs where p: "job_parts job = Inr (workflow, imgs)"
      by (cases p) auto
    obtain s w1 where sv: "save_input_images E imgs \<lparr>files = fs, trace = []\<rparr> = (s, w1)"
      by (cases "save_input_images E imgs \<lparr>files = fs, trace = []\<rparr>") auto
    show ?thesis
    proof (cases s)
      case (Some e)
      with h p sv fin show ?thesis
        by (intro save_failed [of workflow imgs e]) (auto simp: handler_to_history_eq)
    next
      case None
      obtain tr u where en: "ensure_comfy_up (alive E) = (tr, u)"
        by (cases "ensure_comfy_up (alive E)") auto
      show ?thesis
      proof (cases u)
        case (Some e)
        with h p sv None en fin show ?thesis
          by (intro not_ready [of workflow imgs w1 tr e]) (auto simp: handler_to_history_eq)
      next
        case u: None
        with h p sv None en have ar: "after_ready E workflow (emit tr w1) = Some (r0, w0)"
          by (simp add: handler_to_history_eq)
        from tail obtain vs where "trace w = trace w0 @ vs" "list_all is_view vs"
          "files w = files w0"
          "case r0 of Inl e \<Rightarrow> r = Inl e \<and> vs = [] | Inr h \<Rightarrow> (r, w) = handler_result E h w0"
          by blast
        with p sv None en u ar show ?thesis
          by (intro ready [of workflow imgs w1 tr r0 w0 vs]) simp_all
      qed
    qed
  qed
qed

lemma kind_facts:
  "is_write e \<Longrightarrow> \<not> is_probe e \<and> \<not> is_connect e \<and> \<not> is_submit e \<and> \<not> is_history_request e \<and> \<not> is_late e"
  "is_probe e \<Longrightarrow> \<not> is_write e \<and> \<not> is_connect e \<and> \<not> is_submit e \<and> \<not> is_history_request e \<and> \<not> is_late e"
  "is_view e \<Longrightarrow> is_late e \<and> \<not> is_write e \<and> \<not> is_probe e \<and> \<not> is_connect e \<and> \<not> is_submit e \<and> \<not> is_history_request e"
  "is_late e \<Longrightarrow> \<not> is_write e \<and> \<not> is_probe e \<and> \<not> is_connect e \<and> \<not> is_submit e"
  by (cases e; simp)+

lemma filter_none: "list_all P xs \<Longrightarrow> (\<And>e. P e \<Longrightarrow> \<not> Q e) \<Longrightarrow> filter Q xs = []"
  by (induction xs) auto

lemma list_all_weaken: "list_all P xs \<Longrightarrow> (\<And>e. P e \<Longrightarrow> Q e) \<Longrightarrow> list_all Q xs"
  by (induction xs) auto

lemma not_in_kind: "list_all P xs \<Longrightarrow> \<not> P e \<Longrightarrow> e \<notin> set xs"
  by (auto simp: list_all_iff)

lemma replicate_recv_late: "list_all is_late (replicate n WsRecv)"
  by (induction n) auto

lemma submitted_tail_views:
  assumes "submitted_tail E workflow r0 tail" and "list_all is_view vs"
  shows "submitted_tail E workflow r0 (tail @ vs)"
proof -
  from assms(1) obtain late where l: "tail = PostPrompt (submission E workflow) # late"
    "list_all is_late late" "ws_connect E = None"
    "filter is_history_request late = [] \<and> (\<exists>e. r0 = Inl e)
       \<or> (\<exists>pid n. filter is_history_request late = [GetHistory pid] \<and>
            queue_prompt E workflow = Inr pid \<and>
            wait_for_execution (loads E) (ws_recv E) pid 0 = Some (None, n) \<and>
            r0 = get_history E pid)"
    unfolding submitted_tail_def by blast
  have vl: "list_all is_late vs" "filter is_history_request vs = []"
    using assms(2) kind_facts(3) by (auto intro: list_all_weaken filter_none)
  have 1: "tail @ vs = PostPrompt (submission E workflow) # (late @ vs)" using l(1) by simp
  have 2: "list_all is_late (late @ vs)" using l(2) vl(1) by simp
  have 3: "filter is_history_request (late @ vs) = filter is_history_request late"
    using vl(2) by simp
  show ?thesis
    unfolding submitted_tail_def
    by (rule exI [of _ "late @ vs"]) (use 1 2 3 l(3,4) in simp)
qed

text \<open>The trace of a run that got past the readiness loop.\<close>

lemma ready_trace:
  assumes sv: "save_input_images E imgs \<lparr>files = fs, trace = []\<rparr> = (None, w1)"
    and en: "ensure_comfy_up (alive E) = (tr, None)"
    and ar: "after_ready E workflow (emit tr w1) = Some (r0, w2)"
  obtains ws tr' tail where
    "trace w2 = ws @ tr' @ [UrlOpenBase, WsConnect (client_id E)] @ tail"
    "list_all2 writes_image imgs ws" "list_all is_probe tr'"
    "files w2 = foldl apply_write fs ws"
    "tail = [] \<and> ws_connect E \<noteq> None \<and> (\<exists>e. r0 = Inl e) \<or> submitted_tail E workflow r0 tail"
    "tr = tr' @ [UrlOpenBase]"
proof -
  from save_ok [OF sv] obtain ws where ws: "trace w1 = ws" "list_all2 writes_image imgs ws"
    "files w1 = foldl apply_write fs ws" by auto
  from en obtain tr' where tr: "tr = tr' @ [UrlOpenBase]" "list_all is_probe tr'"
    unfolding ensure_comfy_up_def using ensure_up_success by blast
  have nh: "filter is_history_request (replicate n WsRecv) = []" for n
    by (induction n) auto
  from ar show ?thesis
  proof (cases rule: after_ready_cases)
    case (refused e)
    with ws tr show ?thesis
      by (intro that [of ws tr' "[]"]) simp_all
  next
    case (rejected e)
    then have "submitted_tail E workflow r0 [PostPrompt (submission E workflow)]"
      by (simp add: submitted_tail_def)
    with rejected ws tr show ?thesis
      by (intro that [of ws tr' "[PostPrompt (submission E workflow)]"]) simp_all
  next
    case (dropped pid e n)
    then have "submitted_tail E workflow r0
        (PostPrompt (submission E workflow) # replicate n WsRecv)"
      using nh replicate_recv_late by (simp add: submitted_tail_def)
    with dropped ws tr show ?thesis
      by (intro that [of ws tr' "PostPrompt (submission E workflow) # replicate n WsRecv"])
         simp_all
  next
    case (finished pid n)
    then have "submitted_tail E workflow r0
        (PostPrompt (submission E workflow) # replicate n WsRecv @ [WsClose, GetHistory pid])"
      unfolding submitted_tail_def
      by (intro exI [of _ "replicate n WsRecv @ [WsClose, GetHistory pid]"])
         (use nh replicate_recv_late in auto)
    with finished ws tr show ?thesis
      by (intro that [of ws tr'
            "PostPrompt (submission E workflow) # replicate n WsRecv @ [WsClose, GetHistory pid]"])
         simp_all
  qed
qed

lemma handler_trace:
  assumes "handler E job fs = Some (r, w)"
  obtains
    (unsaved) ws e where "trace w = ws" "list_all is_write ws" "r = Inl e"
      "files w = foldl apply_write fs ws"
      "job_parts job = Inl e \<and> ws = []
       \<or> (\<exists>workflow imgs. job_parts job = Inr (workflow, imgs) \<and> imgs \<noteq> [])"
  | (unready) workflow imgs ws tr e where "job_parts job = Inr (workflow, imgs)"
      "trace w = ws @ tr" "list_all2 writes_image imgs ws" "list_all is_probe tr"
      "files w = foldl apply_write fs ws" "r = Inl e"
      "ensure_comfy_up (alive E) = (tr, Some e)"
  | (ready) workflow imgs ws tr' tail r0 where "job_parts job = Inr (workflow, imgs)"
      "trace w = ws @ tr' @ [UrlOpenBase, WsConnect (client_id E)] @ tail"
      "list_all2 writes_image imgs ws" "list_all is_probe tr'"
      "files w = foldl apply_write fs ws"
      "snd (ensure_comfy_up (alive E)) = None"
      "case r0 of Inl e \<Rightarrow> r = Inl e | Inr h \<Rightarrow> (\<exists>w2. (r, w) = handler_result E h w2)"
      "tail = [] \<and> ws_connect E \<noteq> None \<and> (\<exists>e. r0 = Inl e) \<or> submitted_tail E workflow r0 tail"
      "ensure_comfy_up (alive E) = (tr' @ [UrlOpenBase], None)"
  using assms
proof (cases rule: handler_cases)
  case (no_input e)
  then show ?thesis by (intro unsaved [of "[]" e]) simp_all
next
  case (save_failed workflow imgs e)
  from save_writes_only [OF save_failed(2)] obtain ws where
    "trace w = ws" "list_all is_write ws" "files w = foldl apply_write fs ws" by auto
  moreover from save_failed(2) have "imgs \<noteq> []" by auto
  ultimately show ?thesis using save_failed by (intro unsaved [of ws e]) simp_all
next
  case (not_ready workflow imgs w1 tr e)
  from save_ok [OF not_ready(2)] obtain ws where ws: "trace w1 = ws"
    "list_all2 writes_image imgs ws" "files w1 = foldl apply_write fs ws" by auto
  from not_ready(3) have "list_all is_probe tr"
    unfolding ensure_comfy_up_def by (rule ensure_up_probes)
  with not_ready ws show ?thesis
    by (intro unready [of workflow imgs ws tr e]) simp_all
next
  case (ready workflow imgs w1 tr r0 w2 vs)
  from ready(2,3,4) obtain ws tr' tail where t:
    "trace w2 = ws @ tr' @ [UrlOpenBase, WsConnect (client_id E)] @ tail"
    "list_all2 writes_image imgs ws" "list_all is_probe tr'"
    "files w2 = foldl apply_write fs ws"
    "tail = [] \<and> ws_connect E \<noteq> None \<and> (\<exists>e. r0 = Inl e) \<or> submitted_tail E workflow r0 tail"
    "tr = tr' @ [UrlOpenBase]"
    by (rule ready_trace)
  have rel: "case r0 of Inl e \<Rightarrow> r = Inl e | Inr h \<Rightarrow> (\<exists>w2. (r, w) = handler_result E h w2)"
    using ready(8) by (auto split: sum.splits)
  have d: "tail @ vs = [] \<and> ws_connect E \<noteq> None \<and> (\<exists>e. r0 = Inl e)
      \<or> submitted_tail E workflow r0 (tail @ vs)"
    using t(5)
  proof
    assume a: "tail = [] \<and> ws_connect E \<noteq> None \<and> (\<exists>e. r0 = Inl e)"
    with ready(8) have "vs = []" by auto
    with a show ?thesis by simp
  next
    assume "submitted_tail E workflow r0 tail"
    then show ?thesis using ready(6) by (simp add: submitted_tail_views)
  qed
  from t ready rel d show ?thesis
    by (intro that(3) [of workflow imgs ws tr' "tail @ vs" r0]) simp_all
qed

lemma history_member:
  "GetHistory pid \<in> set xs \<longleftrightarrow> GetHistory pid \<in> set (filter is_history_request xs)"
  by simp





subsection \<open>The example runs\<close>

lemma demo_collect:
  "handler_result demo_env_one history_one w = (Inr demo_result,
     emit [GetView (JStr ''out.png'') (JStr '''') (JStr ''output'')] w)"
proof -
  have r: "artifact_refs history_one = Some [out_ref ''out.png'']"
    by (simp add: artifact_refs_def history_one_def out_ref_def ref_ok_def has_field_def)
  then obtain kvs where out: "py_getitem history_one (JStr ''outputs'') = Inr (JObj kvs)"
    and g: "gather_refs (map snd kvs) = Some [out_ref ''out.png'']"
    by (auto simp: artifact_refs_def split: sum.splits json.splits)
  have f: "fetches demo_env_one 0 [out_ref ''out.png''] [[1, 2, 3]]"
    by (simp add: fetch_def get_image_def out_ref_fields)
       (simp add: demo_env_one_def demo_env_def view_store_def)
  from collect_images_ok [OF g f, of "[]"] out show ?thesis
    by (simp add: handler_result_def image_entry_def view_event_def out_ref_fields
        b64_samples demo_result_def del: b64encode.simps)
qed

lemma demo_run:
  "handler demo_env_one demo_job Map.empty = Some (Inr demo_result, demo_final_world)"
proof -
  have "handler_to_history demo_env_one demo_job Map.empty = Some (Inr history_one, demo_world)"
    unfolding demo_env_one_def using history_texts_fresh by (intro demo_to_history)
  then show ?thesis by (simp add: handler_def demo_collect demo_final_world_def)
qed


lemma demo_trace:
  "trace demo_final_world =
     [FileWrite ''/input/in.png'' [77, 97, 110], UrlOpenBase, Sleep 1, UrlOpenBase,
      WsConnect ''c0'', PostPrompt demo_submission, WsRecv, WsRecv, WsRecv, WsClose,
      GetHistory (JStr ''p1''), GetView (JStr ''out.png'') (JStr '''') (JStr ''output'')]"
  by (simp add: demo_final_world_def demo_world_def demo_submission_def)

subsection \<open>The connection and the submission\<close>

text \<open>
  C6, as amended. In every run that submits a workflow, the trace has the request to the
  base address that succeeded, then the opening of the push channel for the client
  identity, then the submission, in this order and next to each other: before them only
  the writing of input images and the failed requests of the readiness loop, after them
  only receptions, the closing, and the requests for the history and the images. The
  channel is opened before the workflow is submitted, once and not again.
\<close>

theorem channel_opened_before_submission:
  assumes "handler E job fs = Some (r, w)" and "PostPrompt p \<in> set (trace w)"
  shows "\<exists>pre post workflow imgs.
           trace w = pre @ [UrlOpenBase, WsConnect (client_id E), PostPrompt p] @ post
           \<and> list_all (\<lambda>e. is_write e \<or> is_probe e) pre
           \<and> list_all is_late post
           \<and> job_parts job = Inr (workflow, imgs) \<and> p = submission E workflow
           \<and> snd (ensure_comfy_up (alive E)) = None \<and> ws_connect E = None"
  using assms(1)
proof (cases rule: handler_trace)
  case (unsaved ws e)
  with assms(2) have False using not_in_kind [of is_write ws "PostPrompt p"] by simp
  then show ?thesis ..
next
  case (unready workflow imgs ws tr e)
  have "list_all is_write ws" using unready(3) by (rule writes_image_is_write)
  with unready(2,4) assms(2) have False
    using not_in_kind [of is_write ws "PostPrompt p"] not_in_kind [of is_probe tr "PostPrompt p"]
    by auto
  then show ?thesis ..
next
  case (ready workflow imgs ws tr' tail r0)
  have wr: "list_all is_write ws" using ready(3) by (rule writes_image_is_write)
  have np: "PostPrompt p \<notin> set ws" "PostPrompt p \<notin> set tr'"
    using not_in_kind [OF wr, of "PostPrompt p"] not_in_kind [OF ready(4), of "PostPrompt p"]
    by simp_all
  from ready(8) show ?thesis
  proof
    assume "tail = [] \<and> ws_connect E \<noteq> None \<and> (\<exists>e. r0 = Inl e)"
    with ready(2) np assms(2) have False by auto
    then show ?thesis ..
  next
    assume "submitted_tail E workflow r0 tail"
    then obtain late where l: "tail = PostPrompt (submission E workflow) # late"
      "list_all is_late late" "ws_connect E = None"
      unfolding submitted_tail_def by blast
    have "PostPrompt p \<notin> set late"
      using not_in_kind [OF l(2), of "PostPrompt p"] by simp
    with assms(2) ready(2) l(1) np have p: "p = submission E workflow" by auto
    have pre: "list_all (\<lambda>e. is_write e \<or> is_probe e) (ws @ tr')"
      using wr ready(4) by (auto simp: list_all_iff)
    have "trace w = (ws @ tr') @ [UrlOpenBase, WsConnect (client_id E), PostPrompt p] @ late"
      using ready(2) l(1) p by simp
    with pre l(2,3) ready(1,6) p show ?thesis by blast
  qed
qed

theorem channel_opened_before_submission_witness:
  "\<exists>pre post workflow imgs.
     trace demo_final_world =
       pre @ [UrlOpenBase, WsConnect (client_id demo_env_one), PostPrompt demo_submission] @ post
     \<and> list_all (\<lambda>e. is_write e \<or> is_probe e) pre
     \<and> list_all is_late post
     \<and> job_parts demo_job = Inr (workflow, imgs)
     \<and> demo_submission = submission demo_env_one workflow
     \<and> snd (ensure_comfy_up (alive demo_env_one)) = None \<and> ws_connect demo_env_one = None"
proof -
  have "PostPrompt demo_submission \<in> set (trace demo_final_world)"
    by (simp add: demo_trace)
  with demo_run show ?thesis by (rule channel_opened_before_submission)
qed

text \<open>
  C6 as stated, that the submission comes before the opening of the channel, fails: in
  the run of the example job the channel is opened as event 4 of the trace (line 107) and
  the workflow is submitted as event 5 (line 110).
\<close>

theorem channel_opened_before_submission_counterexample:
  "handler demo_env_one demo_job Map.empty = Some (Inr demo_result, demo_final_world)
   \<and> index_of (WsConnect ''c0'') (trace demo_final_world) = Some 4
   \<and> index_of (PostPrompt demo_submission) (trace demo_final_world) = Some 5"
  using demo_run by (simp add: demo_trace)

subsection \<open>The job identifier\<close>

text \<open>
  C7, as amended. The identifier \<^verbatim>\<open>queue_prompt\<close> returns is the value under
  \<^verbatim>\<open>prompt_id\<close> of the parsed answer to the submission, whatever it is. In every run, a
  request for the history is made for the identifier that the one submission of the run
  returned and for which the listener has returned, and it is the only such request; a
  run that returns a value has made it and has got the history record of this identifier.
\<close>

theorem job_identifier_stable:
  assumes "handler E job fs = Some (r, w)"
  shows "(\<forall>pid. GetHistory pid \<in> set (trace w) \<longrightarrow>
            (\<exists>workflow imgs n. job_parts job = Inr (workflow, imgs) \<and>
               queue_prompt E workflow = Inr pid \<and>
               wait_for_execution (loads E) (ws_recv E) pid 0 = Some (None, n) \<and>
               filter is_submit (trace w) = [PostPrompt (submission E workflow)] \<and>
               filter is_history_request (trace w) = [GetHistory pid]))
         \<and> (\<forall>v. r = Inr v \<longrightarrow>
               (\<exists>pid h. GetHistory pid \<in> set (trace w) \<and> get_history E pid = Inr h))
         \<and> (\<forall>workflow pid. queue_prompt E workflow = Inr pid \<longrightarrow>
               (\<exists>body res. post_prompt E (submission E workflow) = Inr body \<and>
                  loads E body = Inr res \<and> py_getitem res (JStr ''prompt_id'') = Inr pid))"
proof -
  have third: "\<exists>body res. post_prompt E (submission E workflow) = Inr body \<and>
       loads E body = Inr res \<and> py_getitem res (JStr ''prompt_id'') = Inr pid"
    if "queue_prompt E workflow = Inr pid" for workflow pid
    using that by (auto simp: queue_prompt_def submission_def Let_def split: sum.splits)
  have rest: "(\<forall>pid. GetHistory pid \<in> set (trace w) \<longrightarrow>
            (\<exists>workflow imgs n. job_parts job = Inr (workflow, imgs) \<and>
               queue_prompt E workflow = Inr pid \<and>
               wait_for_execution (loads E) (ws_recv E) pid 0 = Some (None, n) \<and>
               filter is_submit (trace w) = [PostPrompt (submission E workflow)] \<and>
               filter is_history_request (trace w) = [GetHistory pid]))
         \<and> (\<forall>v. r = Inr v \<longrightarrow>
               (\<exists>pid h. GetHistory pid \<in> set (trace w) \<and> get_history E pid = Inr h))"
    using assms
  proof (cases rule: handler_trace)
    case (unsaved ws e)
    then show ?thesis using not_in_kind [of is_write ws "GetHistory _"] by auto
  next
    case (unready workflow imgs ws tr e)
    have "list_all is_write ws" using unready(3) by (rule writes_image_is_write)
    with unready(2,4,6) show ?thesis
      using not_in_kind [of is_write ws "GetHistory _"]
        not_in_kind [of is_probe tr "GetHistory _"]
      by auto
  next
    case (ready workflow imgs ws tr' tail r0)
    have wr: "list_all is_write ws" using ready(3) by (rule writes_image_is_write)
    have f1: "filter is_submit ws = []" "filter is_history_request ws = []"
      using wr kind_facts(1) by (auto intro: filter_none)
    have f2: "filter is_submit tr' = []" "filter is_history_request tr' = []"
      using ready(4) kind_facts(2) by (auto intro: filter_none)
    from ready(8) show ?thesis
    proof
      assume a: "tail = [] \<and> ws_connect E \<noteq> None \<and> (\<exists>e. r0 = Inl e)"
      with ready(2) have "filter is_history_request (trace w) = []" using f1 f2 by simp
      then have "GetHistory pid \<notin> set (trace w)" for pid
        using history_member [of pid "trace w"] by simp
      moreover from a ready(7) have "\<exists>e. r = Inl e" by auto
      ultimately show ?thesis by auto
    next
      assume "submitted_tail E workflow r0 tail"
      then obtain late where l: "tail = PostPrompt (submission E workflow) # late"
        "list_all is_late late"
        "filter is_history_request late = [] \<and> (\<exists>e. r0 = Inl e)
         \<or> (\<exists>pid n. filter is_history_request late = [GetHistory pid] \<and>
              queue_prompt E workflow = Inr pid \<and>
              wait_for_execution (loads E) (ws_recv E) pid 0 = Some (None, n) \<and>
              r0 = get_history E pid)"
        unfolding submitted_tail_def by blast
      have f3: "filter is_submit late = []" using l(2) kind_facts(4) by (auto intro: filter_none)
      have sub: "filter is_submit (trace w) = [PostPrompt (submission E workflow)]"
        using ready(2) l(1) f1 f2 f3 by simp
      have hist: "filter is_history_request (trace w) = filter is_history_request late"
        using ready(2) l(1) f1 f2 by simp
      have mem: "GetHistory pid \<in> set (trace w) \<longleftrightarrow>
          GetHistory pid \<in> set (filter is_history_request late)" for pid
        using hist history_member [of pid "trace w"] by simp
      from l(3) show ?thesis
      proof
        assume a: "filter is_history_request late = [] \<and> (\<exists>e. r0 = Inl e)"
        with ready(7) have "\<exists>e. r = Inl e" by auto
        with a mem show ?thesis by auto
      next
        assume "\<exists>pid n. filter is_history_request late = [GetHistory pid] \<and>
              queue_prompt E workflow = Inr pid \<and>
              wait_for_execution (loads E) (ws_recv E) pid 0 = Some (None, n) \<and>
              r0 = get_history E pid"
        then obtain pid n where p: "filter is_history_request late = [GetHistory pid]"
          "queue_prompt E workflow = Inr pid"
          "wait_for_execution (loads E) (ws_recv E) pid 0 = Some (None, n)"
          "r0 = get_history E pid" by blast
        have a: "\<exists>workflow imgs n. job_parts job = Inr (workflow, imgs) \<and>
               queue_prompt E workflow = Inr q \<and>
               wait_for_execution (loads E) (ws_recv E) q 0 = Some (None, n) \<and>
               filter is_submit (trace w) = [PostPrompt (submission E workflow)] \<and>
               filter is_history_request (trace w) = [GetHistory q]"
          if "GetHistory q \<in> set (trace w)" for q
        proof -
          from that mem p(1) have "q = pid" by simp
          with p ready(1) sub hist show ?thesis by auto
        qed
        have b: "\<exists>pid h. GetHistory pid \<in> set (trace w) \<and> get_history E pid = Inr h"
          if "r = Inr v" for v
        proof -
          from that ready(7) p(4) obtain h where "get_history E pid = Inr h"
            by (cases "get_history E pid") auto
          moreover have "GetHistory pid \<in> set (trace w)" using mem p(1) by simp
          ultimately show ?thesis by blast
        qed
        from a b show ?thesis by blast
      qed
    qed
  qed
  from rest third show ?thesis by blast
qed

theorem job_identifier_stable_witness:
  "\<exists>workflow imgs n. job_parts demo_job = Inr (workflow, imgs) \<and>
     queue_prompt demo_env_one workflow = Inr (JStr ''p1'') \<and>
     wait_for_execution (loads demo_env_one) (ws_recv demo_env_one) (JStr ''p1'') 0
       = Some (None, n) \<and>
     filter is_submit (trace demo_final_world) = [PostPrompt (submission demo_env_one workflow)] \<and>
     filter is_history_request (trace demo_final_world) = [GetHistory (JStr ''p1'')]"
proof -
  have "GetHistory (JStr ''p1'') \<in> set (trace demo_final_world)"
    by (simp add: demo_trace)
  with job_identifier_stable [OF demo_run] show ?thesis by blast
qed

text \<open>
  C7 as stated, that the returned identifier is a non-empty string, fails: for an answer
  whose \<^verbatim>\<open>prompt_id\<close> is the empty string, \<^verbatim>\<open>queue_prompt\<close> returns the empty string.
\<close>

theorem job_identifier_counterexample:
  "queue_prompt empty_id_env (JObj []) = Inr (JStr '''')"
  by (simp add: queue_prompt_def empty_id_env_def loads_of_def)

subsection \<open>The input images\<close>




















section \<open>The encoding of the payloads\<close>

text \<open>Decoding what the encoder has produced gives the bytes back.\<close>

lemma b64_alphabet_facts:
  "\<forall>n \<in> set [0..<64]. b64_index (b64_char n) = Some n \<and> b64_char n \<noteq> CHR ''=''"
  by code_simp

lemma sextet_bounds:
  fixes x y z :: nat
  assumes "x < 256" "y < 256" "z < 256"
  shows "x div 4 < 64" "x mod 4 * 16 < 64" "x mod 4 * 16 + y div 16 < 64"
    "y mod 16 * 4 < 64" "y mod 16 * 4 + z div 64 < 64" "z mod 64 < 64"
  using assms by simp_all

lemma join_first: "y < 256 \<Longrightarrow> x div 4 * 4 + (x mod 4 * 16 + y div 16) div 16 = (x::nat)"
  by simp

lemma join_first_last: "x div 4 * 4 + (x mod 4 * 16) div 16 = (x::nat)"
  by simp

lemma join_second:
  "y < 256 \<Longrightarrow> z < 256 \<Longrightarrow>
   (x mod 4 * 16 + y div 16) mod 16 * 16 + (y mod 16 * 4 + z div 64) div 4 = (y::nat)"
  by simp

lemma join_second_last:
  "y < 256 \<Longrightarrow> (x mod 4 * 16 + y div 16) mod 16 * 16 + (y mod 16 * 4) div 4 = (y::nat)"
  by simp

lemma join_third: "z < 256 \<Longrightarrow> (y mod 16 * 4 + z div 64) mod 4 * 64 + z mod 64 = (z::nat)"
  by simp

lemma b64_index_char: "n < 64 \<Longrightarrow> b64_index (b64_char n) = Some n"
  using b64_alphabet_facts by simp

lemma b64_char_not_pad: "n < 64 \<Longrightarrow> b64_char n \<noteq> CHR ''=''"
  using b64_alphabet_facts by simp

lemma b64_alphabet_ascii: "\<forall>c \<in> set b64_alphabet. \<not> 128 \<le> (of_char c :: nat)"
  by (simp add: b64_alphabet_def)

lemma b64_char_ascii: "n < 64 \<Longrightarrow> \<not> 128 \<le> (of_char (b64_char n) :: nat)"
proof -
  assume "n < 64"
  then have "b64_char n \<in> set b64_alphabet"
    unfolding b64_char_def by (intro nth_mem) (simp add: b64_alphabet_def)
  with b64_alphabet_ascii show ?thesis by blast
qed

lemma a2b_sextet:
  "n < 64 \<Longrightarrow>
   a2b_base64 (b64_char n # cs) q lc pads out =
     (if q = 0 then a2b_base64 cs 1 n 0 out
      else if q = 1 then a2b_base64 cs 2 (n mod 16) 0 (out @ [of_nat (lc * 4 + n div 16)])
      else if q = 2 then a2b_base64 cs 3 (n mod 4) 0 (out @ [of_nat (lc * 16 + n div 4)])
      else a2b_base64 cs 0 0 0 (out @ [of_nat (lc * 64 + n)]))"
  by (simp add: b64_index_char b64_char_not_pad)

lemma a2b_pad:
  "a2b_base64 (CHR ''='' # cs) q lc pads out =
     (if q \<ge> 2 \<and> q + (pads + 1) \<ge> 4 then Inr out
      else a2b_base64 cs q lc (if q \<ge> 2 then pads + 1 else pads) out)"
  by simp

lemma byte_lt: "unat (a :: byte) < 256"
  using unsigned_less [of a, where ?'a = nat] by simp

lemma a2b_b64encode:
  "a2b_base64 (b64encode bs) 0 lc pads out = Inr (out @ bs)"
proof (induction bs arbitrary: lc pads out rule: b64encode.induct)
  case 1
  show ?case by simp
next
  case (2 a)
  note b = sextet_bounds [OF byte_lt [of a] byte_lt [of a] byte_lt [of a]]
  show ?case
    using b(1,2) join_first_last [of "unat a"]
    by (simp add: a2b_sextet a2b_pad Let_def del: a2b_base64.simps(2))
next
  case (3 a b)
  note bd = sextet_bounds [OF byte_lt [of a] byte_lt [of b] byte_lt [of b]]
  show ?case
    using bd(1,3,4) join_first [OF byte_lt [of b], of "unat a"]
      join_second_last [OF byte_lt [of b], of "unat a"]
    by (simp add: a2b_sextet a2b_pad Let_def del: a2b_base64.simps(2))
next
  case (4 a b c rest)
  note bd = sextet_bounds [OF byte_lt [of a] byte_lt [of b] byte_lt [of c]]
  show ?case
    using bd(1,3,5,6) join_first [OF byte_lt [of b], of "unat a"]
      join_second [OF byte_lt [of b] byte_lt [of c], of "unat a"]
      join_third [OF byte_lt [of c], of "unat b"] "4.IH"
    by (simp add: a2b_sextet Let_def del: a2b_base64.simps(2))
qed

lemma b64encode_ascii: "\<not> list_ex (\<lambda>c. 128 \<le> (of_char c :: nat)) (b64encode bs)"
proof (induction bs rule: b64encode.induct)
  case 1
  show ?case by simp
next
  case (2 a)
  note b = sextet_bounds [OF byte_lt [of a] byte_lt [of a] byte_lt [of a]]
  show ?case using b(1,2) by (simp add: Let_def b64_char_ascii)
next
  case (3 a b)
  note bd = sextet_bounds [OF byte_lt [of a] byte_lt [of b] byte_lt [of b]]
  show ?case using bd(1,3,4) by (simp add: Let_def b64_char_ascii)
next
  case (4 a b c rest)
  note bd = sextet_bounds [OF byte_lt [of a] byte_lt [of b] byte_lt [of c]]
  show ?case using bd(1,3,5,6) "4.IH" by (simp add: Let_def b64_char_ascii)
qed

lemma b64decode_b64encode: "b64decode (JStr (b64encode raw)) = Inr raw"
  using a2b_b64encode [of raw 0 0 "[]"] b64encode_ascii [of raw] by simp

lemma fetches_nth:
  "fetches E j refs raws \<Longrightarrow> k < length refs \<Longrightarrow> fetch E (j + k) (refs ! k) = Inr (raws ! k)"
proof (induction refs arbitrary: j k raws)
  case Nil
  then show ?case by simp
next
  case (Cons r refs)
  from Cons.prems(1) obtain raw rest where raws: "raws = raw # rest"
    and f: "fetch E j r = Inr raw" and fs: "fetches E (Suc j) refs rest"
    by (auto split: list.splits)
  show ?case
  proof (cases k)
    case 0
    with f raws show ?thesis by simp
  next
    case (Suc k')
    with Cons.prems(2) have "k' < length refs" by simp
    from Cons.IH [OF fs this] Suc raws show ?thesis by simp
  qed
qed

lemma returned_images:
  assumes "handler_to_history E job fs = Some (Inr history, w0)"
    and "artifact_refs history = Some refs"
    and "handler E job fs = Some (Inr (JObj [(''images'', JArr outs)]), w)"
  shows "\<exists>raws. fetches E 0 refs raws \<and> outs = map2 image_entry refs raws"
proof -
  from assms(2) obtain kvs where out: "py_getitem history (JStr ''outputs'') = Inr (JObj kvs)"
    and g: "gather_refs (map snd kvs) = Some refs"
    by (auto simp: artifact_refs_def split: sum.splits json.splits)
  from fetches_or_fails [of E 0 refs] show ?thesis
  proof
    assume "\<exists>raws. fetches E 0 refs raws"
    then obtain raws where f: "fetches E 0 refs raws" ..
    have c: "collect_images E (map snd kvs) 0 [] =
        (map view_event refs, Inr ([] @ map2 image_entry refs raws))"
      using g f by (rule collect_images_ok)
    from assms(1,3) out c have "outs = map2 image_entry refs raws"
      by (simp add: handler_def handler_result_def split: if_splits)
    with f show ?thesis by blast
  next
    assume "\<exists>i raws e. i < length refs \<and> fetches E 0 (take i refs) raws \<and>
        fetch E (0 + i) (refs ! i) = Inl e"
    then obtain i raws e where i: "i < length refs" "fetches E 0 (take i refs) raws"
      "fetch E (0 + i) (refs ! i) = Inl e" by blast
    have "collect_images E (map snd kvs) 0 [] = (map view_event (take (Suc i) refs), Inl e)"
      using g i by (rule collect_images_fail)
    with assms(1,3) out have False by (simp add: handler_def handler_result_def)
    then show ?thesis ..
  qed
qed

lemma written_image:
  assumes "list_all2 writes_image imgs ws" and "img \<in> set imgs"
  shows "\<exists>ev \<in> set ws. writes_image img ev"
  using assms by (induction rule: list_all2_induct) auto

lemma writes_image_payload:
  assumes "writes_image img ev"
  shows "\<exists>name data. field img ''name'' = JStr name \<and> b64decode (field img ''image'') = Inr data \<and>
           ev = FileWrite (os_path_join INPUT_DIR name) data"
proof -
  from assms obtain name where n: "py_getitem img (JStr ''name'') = Inr (JStr name)"
    by (auto simp: writes_image_def split: sum.splits json.splits)
  with assms obtain encoded where i: "py_getitem img (JStr ''image'') = Inr encoded"
    by (auto simp: writes_image_def split: sum.splits)
  with assms n obtain data where "b64decode encoded = Inr data"
    "ev = FileWrite (os_path_join INPUT_DIR name) data"
    by (auto simp: writes_image_def split: sum.splits)
  with n i show ?thesis by (simp add: field_def)
qed

lemma echo_to_history:
  "handler_to_history echo_env demo_job Map.empty = Some (Inr history_one, demo_world)"
  unfolding echo_env_def using history_texts_fresh by (intro demo_to_history)

lemma refs_one: "artifact_refs history_one = Some [out_ref ''out.png'']"
  by (simp add: artifact_refs_def history_one_def out_ref_def ref_ok_def has_field_def)

lemma echo_fetch: "fetch echo_env 0 (out_ref ''out.png'') = Inr [77, 97, 110]"
  by (simp add: fetch_def get_image_def out_ref_fields)
     (simp add: echo_env_def demo_env_def view_store_def)

lemma b64_Man: "b64encode [77, 97, 110] = ''TWFu''"
  by (simp add: b64_char_def b64_alphabet_def)

lemma echo_run:
  "handler echo_env demo_job Map.empty = Some (Inr echo_result, demo_final_world)"
proof -
  from refs_one obtain kvs where out: "py_getitem history_one (JStr ''outputs'') = Inr (JObj kvs)"
    and g: "gather_refs (map snd kvs) = Some [out_ref ''out.png'']"
    by (auto simp: artifact_refs_def split: sum.splits json.splits)
  have f: "fetches echo_env 0 [out_ref ''out.png''] [[77, 97, 110]]"
    using echo_fetch by simp
  from collect_images_ok [OF g f, of "[]"] out
  have "handler_result echo_env history_one demo_world = (Inr echo_result, demo_final_world)"
    by (simp add: handler_result_def image_entry_def view_event_def out_ref_fields
        b64_Man echo_result_def demo_final_world_def del: b64encode.simps)
  with echo_to_history show ?thesis by (simp add: handler_def)
qed

lemma demo_job_parts:
  "job_parts demo_job =
     Inr (JObj [(''3'', JObj [(''class_type'', JStr ''LoadImage'')])],
          [JObj [(''name'', JStr ''in.png''), (''image'', JStr ''TWFu'')]])"
  by (simp add: job_parts_def demo_job_def)

text \<open>
  C9. Take a run that returns \<^verbatim>\<open>{"images": [...]}\<close>, an input image of the job whose
  payload decodes to the bytes \<open>raw\<close>, and a reference of the history record for which the
  server has sent these same bytes (the workflow has copied the input to this output).
  Then the handler has written \<open>raw\<close> under the name of the input image, the \<^verbatim>\<open>data\<close> of
  the entry returned for the reference is the base64 text of \<open>raw\<close>, and decoding it
  gives what decoding the payload of the input gives. Decoding the base64 text of any
  bytes gives these bytes.
\<close>

theorem payload_round_trip:
  assumes "handler_to_history E job fs = Some (Inr history, w0)"
    and "artifact_refs history = Some refs"
    and "handler E job fs = Some (Inr (JObj [(''images'', JArr outs)]), w)"
    and "job_parts job = Inr (workflow, imgs)" and "img \<in> set imgs"
    and "k < length refs"
    and "fetch E k (refs ! k) = Inr raw"
    and "b64decode (field img ''image'') = Inr raw"
  shows "b64decode (field (outs ! k) ''data'') = b64decode (field img ''image'')
         \<and> field (outs ! k) ''data'' = JStr (b64encode raw)
         \<and> (\<exists>name. field img ''name'' = JStr name \<and>
               FileWrite (os_path_join INPUT_DIR name) raw \<in> set (trace w))
         \<and> b64decode (JStr (b64encode raw)) = Inr raw"
proof -
  from returned_images [OF assms(1,2,3)] obtain raws where
    f: "fetches E 0 refs raws" and outs: "outs = map2 image_entry refs raws" by blast
  have len: "length raws = length refs" using f by (rule fetches_length)
  from fetches_nth [OF f assms(6)] assms(7) have "raws ! k = raw" by simp
  with outs len assms(6) have entry: "outs ! k = image_entry (refs ! k) raw" by simp
  then have data: "field (outs ! k) ''data'' = JStr (b64encode raw)"
    by (simp add: image_entry_def field_def)
  have inv: "b64decode (JStr (b64encode raw)) = Inr raw" by (rule b64decode_b64encode)
  have saved: "\<exists>name. field img ''name'' = JStr name \<and>
      FileWrite (os_path_join INPUT_DIR name) raw \<in> set (trace w)"
    using assms(3)
  proof (cases rule: handler_trace)
    case (unsaved ws e)
    then show ?thesis by simp
  next
    case (unready workflow' imgs' ws tr e)
    then show ?thesis by simp
  next
    case (ready workflow' imgs' ws tr' tail r0)
    with assms(4) have "list_all2 writes_image imgs ws" by simp
    from written_image [OF this assms(5)] obtain ev where ev: "ev \<in> set ws" "writes_image img ev"
      by blast
    from writes_image_payload [OF ev(2)] assms(8) obtain name where
      "field img ''name'' = JStr name" "ev = FileWrite (os_path_join INPUT_DIR name) raw"
      by auto
    with ev(1) ready(2) show ?thesis by auto
  qed
  from data inv saved assms(8) show ?thesis by simp
qed

theorem payload_round_trip_witness:
  "b64decode (field (JObj [(''name'', JStr ''out.png''), (''data'', JStr ''TWFu'')]) ''data'')
     = b64decode (field (JObj [(''name'', JStr ''in.png''), (''image'', JStr ''TWFu'')]) ''image'')
   \<and> field (JObj [(''name'', JStr ''out.png''), (''data'', JStr ''TWFu'')]) ''data''
     = JStr (b64encode [77, 97, 110])
   \<and> (\<exists>name. field (JObj [(''name'', JStr ''in.png''), (''image'', JStr ''TWFu'')]) ''name''
         = JStr name \<and>
       FileWrite (os_path_join INPUT_DIR name) [77, 97, 110] \<in> set (trace demo_final_world))
   \<and> b64decode (JStr (b64encode [77, 97, 110])) = Inr [77, 97, 110]"
proof -
  let ?img = "JObj [(''name'', JStr ''in.png''), (''image'', JStr ''TWFu'')]"
  have run: "handler echo_env demo_job Map.empty =
      Some (Inr (JObj [(''images'',
        JArr [JObj [(''name'', JStr ''out.png''), (''data'', JStr ''TWFu'')]])]), demo_final_world)"
    using echo_run by (simp add: echo_result_def)
  have m: "?img \<in> set [?img]" by simp
  have k: "(0::nat) < length [out_ref ''out.png'']" by simp
  have fe: "fetch echo_env 0 ([out_ref ''out.png''] ! 0) = Inr [77, 97, 110]"
    using echo_fetch by simp
  have d: "b64decode (field ?img ''image'') = Inr [77, 97, 110]"
    using b64_TWFu by (simp add: field_def del: b64decode.simps)
  show ?thesis
    using payload_round_trip [OF echo_to_history refs_one run demo_job_parts m k fe d]
    unfolding nth_Cons_0 .
qed

section \<open>The path of an input image\<close>

lemma walk_components: "walk dirs part cs = foldl enter dirs (components part cs)"
  by (induction cs arbitrary: dirs part) simp_all

lemma enter_keeps_root:
  "starts_with [d] dirs \<Longrightarrow> p \<noteq> ''..'' \<Longrightarrow> starts_with [d] (enter dirs p)"
  by (cases dirs) (simp_all add: enter_def)

lemma foldl_enter_keeps_root:
  "starts_with [d] dirs \<Longrightarrow> ''..'' \<notin> set ps \<Longrightarrow> starts_with [d] (foldl enter dirs ps)"
proof (induction ps arbitrary: dirs)
  case Nil
  then show ?case by simp
next
  case (Cons p ps)
  from Cons.prems have "starts_with [d] (enter dirs p)" by (intro enter_keeps_root) auto
  with Cons show ?case by simp
qed

lemma relative_stays_inside:
  assumes "\<not> starts_with ''/'' name" and "''..'' \<notin> set (components [] name)"
  shows "inside_input_dir (os_path_join INPUT_DIR name)"
proof -
  have j: "os_path_join INPUT_DIR name = ''/input/'' @ name"
    using assms(1) by (simp add: os_path_join_def INPUT_DIR_def)
  have "resolve (''/input/'' @ name) = foldl enter [''input''] (components [] name)"
    by (simp add: resolve_def enter_def walk_components)
  moreover have "starts_with [''input''] (foldl enter [''input''] (components [] name))"
    using assms(2) by (intro foldl_enter_keeps_root) simp
  ultimately show ?thesis by (simp add: inside_input_dir_def j)
qed

lemma resolve_components: "resolve path = foldl enter [] (components [] path)"
  by (simp add: resolve_def walk_components)

lemma resolve_join:
  "resolve (os_path_join INPUT_DIR name) =
     (if starts_with ''/'' name then foldl enter [] (components [] name)
      else foldl enter [''input''] (components [] name))"
proof (cases "starts_with ''/'' name")
  case True
  then show ?thesis by (simp add: os_path_join_def resolve_components)
next
  case False
  then have "os_path_join INPUT_DIR name = ''/input/'' @ name"
    by (simp add: os_path_join_def INPUT_DIR_def)
  moreover have "resolve (''/input/'' @ name) = foldl enter [''input''] (components [] name)"
    by (simp add: resolve_def enter_def walk_components)
  ultimately show ?thesis using False by simp
qed

lemma climbing_resolves:
  "resolve (os_path_join INPUT_DIR (''../'' @ rest)) = resolve (''/'' @ rest)"
  by (simp add: os_path_join_def INPUT_DIR_def resolve_def enter_def)

lemma other_root:
  "starts_with [d] dirs \<Longrightarrow> d \<noteq> d' \<Longrightarrow> \<not> starts_with [d'] dirs"
  by (cases dirs) auto

lemma climbing_leaves:
  assumes "components [] rest = p # ps" and "p \<noteq> []" and "p \<noteq> ''.''" and "p \<noteq> ''..''"
    and "p \<noteq> ''input''" and "''..'' \<notin> set ps"
  shows "\<not> inside_input_dir (os_path_join INPUT_DIR (''../'' @ rest))"
proof -
  have "resolve (''/'' @ rest) = foldl enter [] (components [] rest)"
    by (simp add: resolve_def enter_def walk_components)
  also have "\<dots> = foldl enter [p] ps" using assms(1-4) by (simp add: enter_def)
  finally have r: "resolve (''/'' @ rest) = foldl enter [p] ps" .
  have "starts_with [p] (foldl enter [p] ps)"
    using assms(6) by (intro foldl_enter_keeps_root) simp_all
  then have "\<not> starts_with [''input''] (foldl enter [p] ps)"
    using assms(5) by (rule other_root)
  then show ?thesis unfolding inside_input_dir_def climbing_resolves r .
qed

text \<open>
  C10, as amended. Whatever the name of an input image is, its payload is written at
  \<^verbatim>\<open>os.path.join(INPUT_DIR, name)\<close>, replacing the file there: no name is refused or
  changed. This path is the name itself when the name is absolute, and \<^verbatim>\<open>/input/\<close>
  followed by the name otherwise; it resolves to where the components of the name lead,
  from the root for an absolute name and from the input directory otherwise. A name
  \<^verbatim>\<open>../\<close> followed by \<open>rest\<close> resolves to what \<open>rest\<close> names from the root. This is outside
  the input directory when the first component of \<open>rest\<close> is a name other than \<^verbatim>\<open>input\<close>
  and no later component is \<^verbatim>\<open>..\<close>, and it is inside for \<^verbatim>\<open>../input/a.png\<close>. A relative
  name without a \<^verbatim>\<open>..\<close> component resolves inside the input directory, with or without
  separators: a name that resolves outside is absolute or has a \<^verbatim>\<open>..\<close> component.
\<close>

theorem input_path_is_verbatim_join:
  "(py_getitem img (JStr ''name'') = Inr (JStr name) \<and>
    py_getitem img (JStr ''image'') = Inr encoded \<and> b64decode encoded = Inr data \<and>
    open_wb E (os_path_join INPUT_DIR name) = None \<longrightarrow>
      save_input_images E [img] w =
        (None, emit [FileWrite (os_path_join INPUT_DIR name) data]
                 (w\<lparr>files := (files w)(resolve (os_path_join INPUT_DIR name) \<mapsto> data)\<rparr>)))
   \<and> os_path_join INPUT_DIR name = (if starts_with ''/'' name then name else ''/input/'' @ name)
   \<and> resolve (os_path_join INPUT_DIR name) =
       (if starts_with ''/'' name then foldl enter [] (components [] name)
        else foldl enter [''input''] (components [] name))
   \<and> resolve (os_path_join INPUT_DIR (''../'' @ rest)) = resolve (''/'' @ rest)
   \<and> inside_input_dir (os_path_join INPUT_DIR (''../'' @ rest)) = inside_input_dir (''/'' @ rest)
   \<and> (components [] rest = p # ps \<and> p \<noteq> [] \<and> p \<noteq> ''.'' \<and> p \<noteq> ''..'' \<and> p \<noteq> ''input'' \<and>
        ''..'' \<notin> set ps \<longrightarrow>
        \<not> inside_input_dir (os_path_join INPUT_DIR (''../'' @ rest)))
   \<and> inside_input_dir (os_path_join INPUT_DIR ''../input/a.png'')
   \<and> (\<not> starts_with ''/'' name \<and> ''..'' \<notin> set (components [] name) \<longrightarrow>
        inside_input_dir (os_path_join INPUT_DIR name))
   \<and> (\<not> inside_input_dir (os_path_join INPUT_DIR name) \<longrightarrow>
        starts_with ''/'' name \<or> ''..'' \<in> set (components [] name))"
proof -
  have saved: "py_getitem img (JStr ''name'') = Inr (JStr name) \<and>
    py_getitem img (JStr ''image'') = Inr encoded \<and> b64decode encoded = Inr data \<and>
    open_wb E (os_path_join INPUT_DIR name) = None \<longrightarrow>
      save_input_images E [img] w =
        (None, emit [FileWrite (os_path_join INPUT_DIR name) data]
                 (w\<lparr>files := (files w)(resolve (os_path_join INPUT_DIR name) \<mapsto> data)\<rparr>))"
    by simp
  have joined: "os_path_join INPUT_DIR name =
      (if starts_with ''/'' name then name else ''/input/'' @ name)"
    by (simp add: os_path_join_def INPUT_DIR_def)
  note place = resolve_join [of name]
  note climb = climbing_resolves [of rest]
  have climb_inside: "inside_input_dir (os_path_join INPUT_DIR (''../'' @ rest)) =
      inside_input_dir (''/'' @ rest)"
    by (simp only: inside_input_dir_def climb)
  have leaves: "components [] rest = p # ps \<and> p \<noteq> [] \<and> p \<noteq> ''.'' \<and> p \<noteq> ''..'' \<and>
      p \<noteq> ''input'' \<and> ''..'' \<notin> set ps \<longrightarrow>
        \<not> inside_input_dir (os_path_join INPUT_DIR (''../'' @ rest))"
    using climbing_leaves [of rest p ps] by blast
  have again: "inside_input_dir (os_path_join INPUT_DIR ''../input/a.png'')"
    by (simp add: inside_input_dir_def os_path_join_def INPUT_DIR_def resolve_def enter_def)
  have stays: "\<not> starts_with ''/'' name \<and> ''..'' \<notin> set (components [] name) \<longrightarrow>
        inside_input_dir (os_path_join INPUT_DIR name)"
    using relative_stays_inside [of name] by blast
  have only: "\<not> inside_input_dir (os_path_join INPUT_DIR name) \<longrightarrow>
        starts_with ''/'' name \<or> ''..'' \<in> set (components [] name)"
    using relative_stays_inside [of name] by blast
  show ?thesis
    by (intro conjI saved joined place climb climb_inside leaves again stays only)
qed

theorem input_path_is_verbatim_join_witness:
  "save_input_images demo_env_one [climbing_image] \<lparr>files = Map.empty, trace = []\<rparr> =
     (None, emit [FileWrite (os_path_join INPUT_DIR ''../etc/passwd'') [77, 97, 110]]
              (\<lparr>files = Map.empty, trace = []\<rparr>
                 \<lparr>files := (files \<lparr>files = Map.empty, trace = []\<rparr>)
                              (resolve (os_path_join INPUT_DIR ''../etc/passwd'') \<mapsto> [77, 97, 110])\<rparr>))
   \<and> resolve (os_path_join INPUT_DIR (''../'' @ ''etc/passwd'')) = [''etc'', ''passwd'']
   \<and> \<not> inside_input_dir (os_path_join INPUT_DIR (''../'' @ ''etc/passwd''))
   \<and> inside_input_dir (os_path_join INPUT_DIR ''in.png'')
   \<and> inside_input_dir (os_path_join INPUT_DIR ''../input/a.png'')"
proof -
  have o: "open_wb demo_env_one (os_path_join INPUT_DIR ''../etc/passwd'') = None"
    by (simp add: demo_env_one_def demo_env_def)
  have n: "py_getitem climbing_image (JStr ''name'') = Inr (JStr ''../etc/passwd'')"
    and i: "py_getitem climbing_image (JStr ''image'') = Inr (JStr ''TWFu'')"
    by (simp_all add: climbing_image_def)
  have r: "resolve (''/'' @ ''etc/passwd'') = [''etc'', ''passwd'']"
    by (simp add: resolve_def enter_def)
  have p: "\<not> starts_with ''/'' ''in.png'' \<and> ''..'' \<notin> set (components [] ''in.png'')"
    by simp
  have c: "components [] ''etc/passwd'' = ''etc'' # [''passwd''] \<and> ''etc'' \<noteq> [] \<and>
      ''etc'' \<noteq> ''.'' \<and> ''etc'' \<noteq> ''..'' \<and> ''etc'' \<noteq> ''input'' \<and> ''..'' \<notin> set [''passwd'']"
    by simp
  from input_path_is_verbatim_join [of climbing_image "''../etc/passwd''" "JStr ''TWFu''"
      "[77, 97, 110]" demo_env_one "\<lparr>files = Map.empty, trace = []\<rparr>" "''etc/passwd''"
      "''etc''" "[''passwd'']"]
    n i b64_TWFu o c
  have one: "save_input_images demo_env_one [climbing_image] \<lparr>files = Map.empty, trace = []\<rparr> =
     (None, emit [FileWrite (os_path_join INPUT_DIR ''../etc/passwd'') [77, 97, 110]]
              (\<lparr>files = Map.empty, trace = []\<rparr>
                 \<lparr>files := (files \<lparr>files = Map.empty, trace = []\<rparr>)
                              (resolve (os_path_join INPUT_DIR ''../etc/passwd'') \<mapsto> [77, 97, 110])\<rparr>))"
    and two: "resolve (os_path_join INPUT_DIR (''../'' @ ''etc/passwd'')) =
      resolve (''/'' @ ''etc/passwd'')"
    and out: "\<not> inside_input_dir (os_path_join INPUT_DIR (''../'' @ ''etc/passwd''))"
    and again: "inside_input_dir (os_path_join INPUT_DIR ''../input/a.png'')"
    by blast+
  from input_path_is_verbatim_join [of _ "''in.png''"] p
  have three: "inside_input_dir (os_path_join INPUT_DIR ''in.png'')" by blast
  from one two out again three r show ?thesis by simp
qed

text \<open>
  C10 as stated, that a name with a path separator resolves outside the input directory,
  fails: \<^verbatim>\<open>sub/a.png\<close> has a separator and resolves to \<^verbatim>\<open>/input/sub/a.png\<close>.
\<close>

theorem input_path_counterexample:
  "CHR ''/'' \<in> set ''sub/a.png''
   \<and> os_path_join INPUT_DIR ''sub/a.png'' = ''/input/sub/a.png''
   \<and> resolve (os_path_join INPUT_DIR ''sub/a.png'') = [''input'', ''sub'', ''a.png'']
   \<and> inside_input_dir (os_path_join INPUT_DIR ''sub/a.png'')"
  by (simp add: inside_input_dir_def os_path_join_def INPUT_DIR_def resolve_def enter_def)

end
